theory Spec2Isabelle
  imports Complex_Main "HOL-Library.Sublist"
begin

section \<open>The object store: nodes and operators\<close>

text \<open>
  The program is a single Python module: a class \<open>Node\<close> with the fields
  \<open>inputs\<close>, \<open>op\<close> and \<open>value\<close>, four operator classes with one instance each,
  and the function \<open>gradients\<close>.  Nodes are compared and hashed by identity (the class
  defines neither \<open>__eq__\<close> nor \<open>__hash__\<close>), several consumers may share one input
  node and \<open>eval\<close> writes the field \<open>value\<close>.  So a node is modelled by its address in
  an object store: the store is the list of all nodes allocated so far, the address of
  a node is its position, and allocation appends.

  Python's floats are idealised as real numbers.  The four operator singletons are the
  constructors of \<open>Op\<close>.  The field \<open>value\<close> is called \<open>val\<close>.
\<close>

datatype Op = AddOp | SubOp | MulOp | DivOp

text \<open>
  The exceptions the module can raise.  \<open>ValueError\<close> is raised by \<open>eval\<close> itself
  ("Node is not connected to an operation."); \<open>IndexError\<close> comes from the subscripts
  \<open>inputs[0]\<close>, \<open>inputs[1]\<close>; \<open>ZeroDivisionError\<close> from \<open>/\<close>; \<open>KeyError\<close> from
  \<open>grads[node]\<close>; \<open>RecursionError\<close> from a recursion deeper than the interpreter
  allows (the fuel of the recursive functions below); \<open>TypeError\<close> from calling an
  operator with a number of arguments its \<open>__call__\<close> does not take.
\<close>

datatype error =
  ValueError | IndexError | ZeroDivisionError | KeyError | RecursionError | TypeError

record node =
  inputs :: "nat list"
  op :: "Op option"
  val :: "real option"

text \<open>
  \<open>forward_calls\<close> is a ghost counter: it counts the calls of an operator's
  \<open>forward\<close> method, the only observable trace of a forward computation.
\<close>

record state =
  heap :: "node list"
  forward_calls :: nat

text \<open>\<open>Node.__init__\<close>: stores the three fields as given; no check at all.\<close>

definition Node_init :: "nat list \<Rightarrow> Op option \<Rightarrow> real option \<Rightarrow> state \<Rightarrow> nat \<times> state" where
  "Node_init ins f v s =
     (length (heap s), s\<lparr>heap := heap s @ [\<lparr>inputs = ins, op = f, val = v\<rparr>]\<rparr>)"

text \<open>\<open>AddOp.__call__\<close> and its three siblings: \<open>Node([node_a, node_b], self)\<close>.\<close>

definition Op_call :: "Op \<Rightarrow> nat \<Rightarrow> nat \<Rightarrow> state \<Rightarrow> nat \<times> state" where
  "Op_call f node_a node_b s = Node_init [node_a, node_b] (Some f) None s"

text \<open>\<open>Node.__add__\<close>, \<open>__sub__\<close>, \<open>__mul__\<close>, \<open>__truediv__\<close>.\<close>

definition Node_add :: "nat \<Rightarrow> nat \<Rightarrow> state \<Rightarrow> nat \<times> state" where
  "Node_add self other s = Op_call AddOp self other s"

definition Node_sub :: "nat \<Rightarrow> nat \<Rightarrow> state \<Rightarrow> nat \<times> state" where
  "Node_sub self other s = Op_call SubOp self other s"

definition Node_mul :: "nat \<Rightarrow> nat \<Rightarrow> state \<Rightarrow> nat \<times> state" where
  "Node_mul self other s = Op_call MulOp self other s"

definition Node_truediv :: "nat \<Rightarrow> nat \<Rightarrow> state \<Rightarrow> nat \<times> state" where
  "Node_truediv self other s = Op_call DivOp self other s"

text \<open>
  A call \<open>op(*args)\<close> of an operator with any number of nodes.  The signature
  \<open>__call__(self, node_a, node_b)\<close> takes two: with another number the interpreter
  raises \<open>TypeError\<close> before the body runs, so no node is constructed.
\<close>

definition Op_apply :: "Op \<Rightarrow> nat list \<Rightarrow> state \<Rightarrow> (error + nat) \<times> state" where
  "Op_apply f args s =
     (case args of
        [node_a, node_b] \<Rightarrow> (case Op_call f node_a node_b s of (n, s1) \<Rightarrow> (Inr n, s1))
      | _ \<Rightarrow> (Inl TypeError, s))"

text \<open>A subscript \<open>xs[i]\<close> with a constant index \<open>i \<ge> 0\<close>.\<close>

definition getitem :: "'a list \<Rightarrow> nat \<Rightarrow> error + 'a" where
  "getitem xs i = (if i < length xs then Inr (xs ! i) else Inl IndexError)"

subsection \<open>The forward rules\<close>

fun forward :: "Op \<Rightarrow> real list \<Rightarrow> error + real" where
  "forward AddOp xs =
     (case getitem xs 0 of Inl e \<Rightarrow> Inl e | Inr x \<Rightarrow>
      (case getitem xs 1 of Inl e \<Rightarrow> Inl e | Inr y \<Rightarrow> Inr (x + y)))"
| "forward SubOp xs =
     (case getitem xs 0 of Inl e \<Rightarrow> Inl e | Inr x \<Rightarrow>
      (case getitem xs 1 of Inl e \<Rightarrow> Inl e | Inr y \<Rightarrow> Inr (x - y)))"
| "forward MulOp xs =
     (case getitem xs 0 of Inl e \<Rightarrow> Inl e | Inr x \<Rightarrow>
      (case getitem xs 1 of Inl e \<Rightarrow> Inl e | Inr y \<Rightarrow> Inr (x * y)))"
| "forward DivOp xs =
     (case getitem xs 0 of Inl e \<Rightarrow> Inl e | Inr x \<Rightarrow>
      (case getitem xs 1 of Inl e \<Rightarrow> Inl e | Inr y \<Rightarrow>
         if y = 0 then Inl ZeroDivisionError else Inr (x / y)))"

subsection \<open>\<open>Node.eval\<close>\<close>

text \<open>
  \<open>eval\<close> recurses through the inputs; the first argument bounds the depth of the
  recursion, as the interpreter's recursion limit does.  An exception leaves the
  values cached so far in place, so the store is returned in every case.
  \<open>eval_inputs\<close> is the list comprehension \<open>[input_node.eval() for input_node in
  self.inputs]\<close>.
\<close>

fun eval :: "nat \<Rightarrow> state \<Rightarrow> nat \<Rightarrow> (error + real) \<times> state"
  and eval_inputs :: "nat \<Rightarrow> state \<Rightarrow> nat list \<Rightarrow> (error + real list) \<times> state" where
  "eval 0 s self = (Inl RecursionError, s)"
| "eval (Suc k) s self =
     (case val (heap s ! self) of
        Some v \<Rightarrow> (Inr v, s)
      | None \<Rightarrow>
        (case eval_inputs k s (inputs (heap s ! self)) of
           (Inl e, s1) \<Rightarrow> (Inl e, s1)
         | (Inr input_values, s1) \<Rightarrow>
           (case op (heap s1 ! self) of
              None \<Rightarrow> (Inl ValueError, s1)
            | Some f \<Rightarrow>
              (case forward f input_values of
                 Inl e \<Rightarrow> (Inl e, s1\<lparr>forward_calls := forward_calls s1 + 1\<rparr>)
               | Inr v \<Rightarrow>
                 (Inr v, s1\<lparr>heap := (heap s1)[self := (heap s1 ! self)\<lparr>val := Some v\<rparr>],
                            forward_calls := forward_calls s1 + 1\<rparr>)))))"
| "eval_inputs k s [] = (Inr [], s)"
| "eval_inputs k s (input_node # rest) =
     (case eval k s input_node of
        (Inl e, s1) \<Rightarrow> (Inl e, s1)
      | (Inr v, s1) \<Rightarrow>
        (case eval_inputs k s1 rest of
           (Inl e, s2) \<Rightarrow> (Inl e, s2)
         | (Inr vs, s2) \<Rightarrow> (Inr (v # vs), s2)))"

subsection \<open>The backward rules\<close>

text \<open>
  Each rule returns the addresses of the gradient contributions, one per input, and
  the store with the nodes it allocated.  The allocations follow Python's evaluation
  order (left operand, then right operand, then the operator).
\<close>

fun backward :: "Op \<Rightarrow> nat \<Rightarrow> nat \<Rightarrow> state \<Rightarrow> (error + nat list) \<times> state" where
  "backward AddOp out_grad node s = (Inr [out_grad, out_grad], s)"
| "backward SubOp out_grad node s =
     (case Node_init [] None (Some (- 1)) s of (m1, s1) \<Rightarrow>
      (case Node_mul m1 out_grad s1 of (r2, s2) \<Rightarrow>
        (Inr [out_grad, r2], s2)))"
| "backward MulOp out_grad node s =
     (case getitem (inputs (heap s ! node)) 1 of Inl e \<Rightarrow> (Inl e, s) | Inr b \<Rightarrow>
      (case Node_mul b out_grad s of (r1, s1) \<Rightarrow>
      (case getitem (inputs (heap s1 ! node)) 0 of Inl e \<Rightarrow> (Inl e, s1) | Inr a \<Rightarrow>
      (case Node_mul a out_grad s1 of (r2, s2) \<Rightarrow>
        (Inr [r1, r2], s2)))))"
| "backward DivOp out_grad node s =
     (case Node_init [] None (Some 1) s of (one, s1) \<Rightarrow>
      (case getitem (inputs (heap s1 ! node)) 1 of Inl e \<Rightarrow> (Inl e, s1) | Inr b \<Rightarrow>
      (case Node_truediv one b s1 of (q1, s2) \<Rightarrow>
      (case Node_mul out_grad q1 s2 of (r1, s3) \<Rightarrow>
      (case Node_init [] None (Some (- 1)) s3 of (m1, s4) \<Rightarrow>
      (case getitem (inputs (heap s4 ! node)) 0 of Inl e \<Rightarrow> (Inl e, s4) | Inr a \<Rightarrow>
      (case Node_mul m1 a s4 of (p, s5) \<Rightarrow>
      (case getitem (inputs (heap s5 ! node)) 1 of Inl e \<Rightarrow> (Inl e, s5) | Inr b1 \<Rightarrow>
      (case getitem (inputs (heap s5 ! node)) 1 of Inl e \<Rightarrow> (Inl e, s5) | Inr b2 \<Rightarrow>
      (case Node_mul b1 b2 s5 of (bb, s6) \<Rightarrow>
      (case Node_truediv p bb s6 of (q2, s7) \<Rightarrow>
      (case Node_mul out_grad q2 s7 of (r2, s8) \<Rightarrow>
        (Inr [r1, r2], s8)))))))))))))"

subsection \<open>\<open>gradients\<close>\<close>

text \<open>
  \<open>build_topo\<close> is the nested function of \<open>gradients\<close>; its two closure variables
  \<open>visited\<close> and \<open>topo_order\<close> are passed and returned.  It only reads the field
  \<open>inputs\<close>, so it takes the node list.  \<open>None\<close> is a recursion deeper than the
  fuel.  \<open>build_topo_inputs\<close> is the loop \<open>for inp in node.inputs\<close>.
\<close>

fun build_topo :: "nat \<Rightarrow> node list \<Rightarrow> nat \<Rightarrow> nat set \<times> nat list \<Rightarrow> (nat set \<times> nat list) option"
  and build_topo_inputs :: "nat \<Rightarrow> node list \<Rightarrow> nat list \<Rightarrow> nat set \<times> nat list \<Rightarrow> (nat set \<times> nat list) option" where
  "build_topo 0 h node (visited, topo_order) = None"
| "build_topo (Suc k) h node (visited, topo_order) =
     (if node \<notin> visited then
        (case build_topo_inputs k h (inputs (h ! node)) (insert node visited, topo_order) of
           None \<Rightarrow> None
         | Some (visited1, topo_order1) \<Rightarrow> Some (visited1, topo_order1 @ [node]))
      else Some (visited, topo_order))"
| "build_topo_inputs k h [] st = Some st"
| "build_topo_inputs k h (inp # rest) st =
     (case build_topo k h inp st of
        None \<Rightarrow> None
      | Some st1 \<Rightarrow> build_topo_inputs k h rest st1)"

text \<open>
  The inner loop \<open>for inp, in_grad in zip(node.inputs, in_grads)\<close>: a second
  contribution to the same input allocates an Add node (\<open>grads[inp] + in_grad\<close>).
\<close>

fun accumulate :: "(nat \<times> nat) list \<Rightarrow> (nat \<rightharpoonup> nat) \<Rightarrow> state \<Rightarrow> (nat \<rightharpoonup> nat) \<times> state" where
  "accumulate [] grads s = (grads, s)"
| "accumulate ((inp, in_grad) # rest) grads s =
     (case grads inp of
        Some g \<Rightarrow>
          (case Node_add g in_grad s of (r, s1) \<Rightarrow> accumulate rest (grads(inp \<mapsto> r)) s1)
      | None \<Rightarrow> accumulate rest (grads(inp \<mapsto> in_grad)) s)"

text \<open>The outer loop \<open>for node in reversed(topo_order)\<close>, given the reversed list.\<close>

fun walk :: "nat list \<Rightarrow> (nat \<rightharpoonup> nat) \<Rightarrow> state \<Rightarrow> (error + (nat \<rightharpoonup> nat)) \<times> state" where
  "walk [] grads s = (Inr grads, s)"
| "walk (node # rest) grads s =
     (case op (heap s ! node) of
        None \<Rightarrow> walk rest grads s
      | Some f \<Rightarrow>
        (case grads node of
           None \<Rightarrow> (Inl KeyError, s)
         | Some out_grad \<Rightarrow>
           (case backward f out_grad node s of
              (Inl e, s1) \<Rightarrow> (Inl e, s1)
            | (Inr in_grads, s1) \<Rightarrow>
              (case accumulate (zip (inputs (heap s1 ! node)) in_grads) grads s1 of
                 (grads1, s2) \<Rightarrow> walk rest grads1 s2))))"

text \<open>
  The result \<open>[grads.get(inp, Node([], None, value=0)) for inp in input_nodes]\<close>: the
  default is an argument of \<open>get\<close>, so a zero leaf is allocated for every element,
  used or not.
\<close>

fun collect :: "nat list \<Rightarrow> (nat \<rightharpoonup> nat) \<Rightarrow> state \<Rightarrow> nat list \<times> state" where
  "collect [] grads s = ([], s)"
| "collect (inp # rest) grads s =
     (case Node_init [] None (Some 0) s of (zero, s1) \<Rightarrow>
      (case collect rest grads s1 of (rs, s2) \<Rightarrow>
        ((case grads inp of Some g \<Rightarrow> g | None \<Rightarrow> zero) # rs, s2)))"

definition gradients :: "nat \<Rightarrow> state \<Rightarrow> nat \<Rightarrow> nat list \<Rightarrow> (error + nat list) \<times> state" where
  "gradients fuel s output_node input_nodes =
     (case Node_init [] None (Some 1) s of (seed, s1) \<Rightarrow>
      (case build_topo fuel (heap s1) output_node ({}, []) of
         None \<Rightarrow> (Inl RecursionError, s1)
       | Some (visited, topo_order) \<Rightarrow>
         (case walk (rev topo_order) (Map.empty(output_node \<mapsto> seed)) s1 of
            (Inl e, s2) \<Rightarrow> (Inl e, s2)
          | (Inr grads, s2) \<Rightarrow>
            (case collect input_nodes grads s2 of (rs, s3) \<Rightarrow> (Inr rs, s3)))))"


section \<open>Example programs\<close>

text \<open>The store before any node is allocated.\<close>

definition empty_state :: state where
  "empty_state = \<lparr>heap = [], forward_calls = 0\<rparr>"

text \<open>
  The module's main program: \<open>a = Node([], None, value=2)\<close>,
  \<open>b = Node([], None, value=3)\<close>, \<open>c = a * a - b * b + a / b\<close>.
\<close>

definition example_graph :: "nat \<times> nat \<times> nat \<times> state" where
  "example_graph =
     (case Node_init [] None (Some 2) empty_state of (a, s1) \<Rightarrow>
      case Node_init [] None (Some 3) s1 of (b, s2) \<Rightarrow>
      case Node_mul a a s2 of (aa, s3) \<Rightarrow>
      case Node_mul b b s3 of (bb, s4) \<Rightarrow>
      case Node_sub aa bb s4 of (d, s5) \<Rightarrow>
      case Node_truediv a b s5 of (q, s6) \<Rightarrow>
      case Node_add d q s6 of (c, s7) \<Rightarrow> (a, b, c, s7))"


text \<open>
  Three leaves \<open>2\<close>, \<open>3\<close>, \<open>7\<close> and \<open>Node([a, b, c], addOp)\<close>: an Add node with three
  inputs, built with the constructor.
\<close>

definition ternary_add :: "nat \<times> state" where
  "ternary_add =
     (case Node_init [] None (Some 2) empty_state of (a, s1) \<Rightarrow>
      case Node_init [] None (Some 3) s1 of (b, s2) \<Rightarrow>
      case Node_init [] None (Some 7) s2 of (c, s3) \<Rightarrow>
        Node_init [a, b, c] (Some AddOp) None s3)"

text \<open>
  A leaf \<open>2\<close>, a node \<open>Node([], None)\<close> with neither operator nor value, and their
  sum.
\<close>

definition disconnected_graph :: "nat \<times> state" where
  "disconnected_graph =
     (case Node_init [] None (Some 2) empty_state of (a, s1) \<Rightarrow>
      case Node_init [] None None s1 of (bad, s2) \<Rightarrow>
        Node_add a bad s2)"

text \<open>
  Leaves \<open>1\<close> and \<open>0\<close>, their quotient \<open>q\<close>, and \<open>Node([q], None)\<close>: a node with
  neither operator nor value whose input fails.
\<close>

definition failing_input_graph :: "nat \<times> state" where
  "failing_input_graph =
     (case Node_init [] None (Some 1) empty_state of (x, s1) \<Rightarrow>
      case Node_init [] None (Some 0) s1 of (z, s2) \<Rightarrow>
      case Node_truediv x z s2 of (q, s3) \<Rightarrow>
        Node_init [q] None None s3)"

text \<open>
  Leaves \<open>a = 2\<close> and \<open>b = 3\<close>, their product \<open>t = a * b\<close>, and
  \<open>Node([a, b, t], addOp)\<close>: an acyclic graph whose root is an Add node with three
  inputs, the third one an operator node.
\<close>

definition ternary_sum :: "nat \<times> state" where
  "ternary_sum =
     (case Node_init [] None (Some 2) empty_state of (a, s1) \<Rightarrow>
      case Node_init [] None (Some 3) s1 of (b, s2) \<Rightarrow>
      case Node_mul a b s2 of (t, s3) \<Rightarrow>
        Node_init [a, b, t] (Some AddOp) None s3)"

text \<open>
  The diamond \<open>d = (a + b) * (a + b)\<close> over leaves \<open>a = x\<close> and \<open>b = y\<close>, allocated
  in a store \<open>s\<close>.  As Python evaluates the expression, each \<open>a + b\<close> is a node of
  its own, and \<open>a\<close> and \<open>b\<close> are shared by the two (\<open>diamond\<close>).  In
  \<open>diamond_shared\<close> one node \<open>sm = a + b\<close> is both inputs of \<open>d = sm * sm\<close>.
\<close>

definition diamond :: "real \<Rightarrow> real \<Rightarrow> state \<Rightarrow> nat \<times> nat \<times> nat \<times> state" where
  "diamond x y s =
     (case Node_init [] None (Some x) s of (a, s1) \<Rightarrow>
      case Node_init [] None (Some y) s1 of (b, s2) \<Rightarrow>
      case Node_add a b s2 of (l, s3) \<Rightarrow>
      case Node_add a b s3 of (r, s4) \<Rightarrow>
      case Node_mul l r s4 of (d, s5) \<Rightarrow> (a, b, d, s5))"

definition diamond_shared :: "real \<Rightarrow> real \<Rightarrow> state \<Rightarrow> nat \<times> nat \<times> nat \<times> state" where
  "diamond_shared x y s =
     (case Node_init [] None (Some x) s of (a, s1) \<Rightarrow>
      case Node_init [] None (Some y) s1 of (b, s2) \<Rightarrow>
      case Node_add a b s2 of (sm, s3) \<Rightarrow>
      case Node_mul sm sm s3 of (d, s4) \<Rightarrow> (a, b, d, s4))"

section \<open>Graphs in the store\<close>

text \<open>
  \<open>edges h\<close> relates an input to its consumer.  \<open>reach h n\<close> are the nodes reachable
  from \<open>n\<close> through inputs, \<open>n\<close> included.  In \<open>closed h\<close> every input is an allocated
  node, as every reference of the program is.
\<close>

definition edges :: "node list \<Rightarrow> (nat \<times> nat) set" where
  "edges h = {(i, c). c < length h \<and> i \<in> set (inputs (h ! c))}"

definition reach :: "node list \<Rightarrow> nat \<Rightarrow> nat set" where
  "reach h n = {m. (m, n) \<in> (edges h)\<^sup>*}"

definition closed :: "node list \<Rightarrow> bool" where
  "closed h = (\<forall>nd \<in> set h. \<forall>i \<in> set (inputs nd). i < length h)"

text \<open>
  A store built by the constructor alone, which can only be given nodes that exist
  already: every input is older than its consumer.
\<close>

definition created_in_order :: "node list \<Rightarrow> bool" where
  "created_in_order h = (\<forall>c < length h. \<forall>i \<in> set (inputs (h ! c)). i < c)"

text \<open>
  The arity invariant of the data model: a node with an operator has two inputs, a
  node without one has none.  The code does not enforce it.
\<close>

definition binary :: "node list \<Rightarrow> bool" where
  "binary h = (\<forall>nd \<in> set h. length (inputs nd) = (if op nd = None then 0 else 2))"

text \<open>A list of nodes in which every node comes after all its inputs.\<close>

definition topo_sorted :: "node list \<Rightarrow> nat list \<Rightarrow> bool" where
  "topo_sorted h topo = (\<forall>j < length topo. set (inputs (h ! (topo ! j))) \<subseteq> set (take j topo))"

text \<open>
  The contract of \<open>build_topo\<close> on a set \<open>R\<close> of nodes to be explored, between the
  closure variables \<open>(visited, topo_order)\<close> before a call and its result.  Before:
  the list has no duplicates, is sorted, and holds every visited node but the ones
  whose calls are still open, none of which is in \<open>R\<close>.  After: the nodes of \<open>R\<close> that
  were not in the list have been appended and marked visited, and the list is still
  sorted and free of duplicates.
\<close>

definition dfs_pre :: "node list \<Rightarrow> nat set \<Rightarrow> nat set \<times> nat list \<Rightarrow> bool" where
  "dfs_pre h R st =
     (case st of (visited, topo) \<Rightarrow>
        set topo \<subseteq> visited \<and> distinct topo \<and> topo_sorted h topo \<and> (visited - set topo) \<inter> R = {})"

definition dfs_post :: "node list \<Rightarrow> nat set \<Rightarrow> nat set \<times> nat list \<Rightarrow> (nat set \<times> nat list) option \<Rightarrow> bool" where
  "dfs_post h R st res =
     (case st of (visited, topo) \<Rightarrow>
        \<exists>new. res = Some (visited \<union> set new, topo @ new) \<and> set new = R - set topo \<and>
              distinct (topo @ new) \<and> topo_sorted h (topo @ new))"

text \<open>A node with neither an operator nor a value.\<close>

definition malformed :: "state \<Rightarrow> nat \<Rightarrow> bool" where
  "malformed s m = (op (heap s ! m) = None \<and> val (heap s ! m) = None)"

section \<open>Frames\<close>

text \<open>
  \<open>extends s s'\<close>: \<open>s'\<close> is \<open>s\<close> with new nodes allocated; no node of \<open>s\<close> has changed
  and no forward rule has run.
\<close>

definition extends :: "state \<Rightarrow> state \<Rightarrow> bool" where
  "extends s s' = (prefix (heap s) (heap s') \<and> forward_calls s' = forward_calls s)"

text \<open>
  \<open>memoizes s s'\<close>: \<open>s'\<close> has the nodes of \<open>s\<close>, with the same inputs and operators;
  a value present in \<open>s\<close> is the same in \<open>s'\<close>.
\<close>

definition memoizes :: "state \<Rightarrow> state \<Rightarrow> bool" where
  "memoizes s s' =
     (length (heap s') = length (heap s) \<and>
      (\<forall>m < length (heap s).
         inputs (heap s' ! m) = inputs (heap s ! m) \<and> op (heap s' ! m) = op (heap s ! m) \<and>
         (val (heap s ! m) \<noteq> None \<longrightarrow> val (heap s' ! m) = val (heap s ! m))))"





text \<open>
  The calls of \<open>eval\<close>, each given by its recursion limit, the store it starts in and
  its node: \<open>calls c d\<close> when the call \<open>c\<close> is \<open>d\<close> or makes it, directly or through
  its inputs.  A call on a node without a cached value calls \<open>eval\<close> on an input once
  the inputs before it have been evaluated, in the store they have left.
\<close>

inductive calls :: "nat \<times> state \<times> nat \<Rightarrow> nat \<times> state \<times> nat \<Rightarrow> bool" where
  calls_self: "calls c c"
| calls_input:
    "val (heap s ! n) = None \<Longrightarrow> inputs (heap s ! n) = pre @ i # post \<Longrightarrow>
     eval_inputs k s pre = (Inr vs, s1) \<Longrightarrow> calls (k, s1, i) c \<Longrightarrow>
     calls (Suc k, s, n) c"

section \<open>Gradient contributions\<close>

text \<open>
  The uses of a node \<open>inp\<close> that get a contribution in \<open>gradients\<close> with the output
  \<open>output_node\<close>: the pairs \<open>(c, p)\<close> of a node \<open>c\<close> reachable from the output
  that has an operator, and a position \<open>p\<close> at which \<open>inp\<close> is an input of \<open>c\<close>.
  The position is \<open>0\<close> or \<open>1\<close>: every backward rule returns two contributions, and
  \<open>zip(node.inputs, in_grads)\<close> pairs them with the first two inputs.
\<close>

definition uses :: "node list \<Rightarrow> nat \<Rightarrow> nat \<Rightarrow> (nat \<times> nat) set" where
  "uses h output_node inp =
     {(c, p). c \<in> reach h output_node \<and> op (h ! c) \<noteq> None \<and>
              p < length (inputs (h ! c)) \<and> p < 2 \<and> inputs (h ! c) ! p = inp}"

text \<open>
  \<open>contribution s s' c g p k\<close>: between the stores \<open>s\<close> and \<open>s'\<close>, the backward rule
  of the operator of \<open>c\<close> has been applied to the gradient \<open>g\<close> and the node \<open>c\<close>,
  and \<open>k\<close> is the contribution it has returned for the input at position \<open>p\<close>.
\<close>

definition contribution :: "state \<Rightarrow> state \<Rightarrow> nat \<Rightarrow> nat \<Rightarrow> nat \<Rightarrow> nat \<Rightarrow> bool" where
  "contribution s s' c g p k =
     (\<exists>f sa sb in_grads. op (heap s ! c) = Some f \<and> extends s sa \<and>
        backward f g c sa = (Inr in_grads, sb) \<and> extends sb s' \<and>
        p < length in_grads \<and> in_grads ! p = k)"

text \<open>
  \<open>node_at h k nd\<close>: the node at the address \<open>k\<close> is \<open>nd\<close>.  \<open>adds h init ks res\<close>:
  the entry \<open>res\<close> is what the inner loop of \<open>gradients\<close> makes of the entry \<open>init\<close>
  and the contributions \<open>ks\<close>, taken in this order: the first contribution when
  there was no entry, and an Add node of the entry and the contribution afterwards.
\<close>

definition node_at :: "node list \<Rightarrow> nat \<Rightarrow> node \<Rightarrow> bool" where
  "node_at h k nd = (k < length h \<and> h ! k = nd)"

fun adds :: "node list \<Rightarrow> nat option \<Rightarrow> nat list \<Rightarrow> nat option \<Rightarrow> bool" where
  "adds h init [] res = (res = init)"
| "adds h None (k # ks) res = adds h (Some k) ks res"
| "adds h (Some r0) (k # ks) res =
     (\<exists>r. node_at h r \<lparr>inputs = [r0, k], op = Some AddOp, val = None\<rparr> \<and>
          adds h (Some r) ks res)"

text \<open>
  The uses of \<open>inp\<close> as a list, in the order in which the walk over the nodes \<open>ns\<close>
  comes to them.
\<close>

definition node_uses :: "node list \<Rightarrow> nat \<Rightarrow> nat \<Rightarrow> (nat \<times> nat) list" where
  "node_uses h inp c =
     (if op (h ! c) = None then []
      else map (Pair c) (filter (\<lambda>p. inputs (h ! c) ! p = inp) [0..<min (length (inputs (h ! c))) 2]))"

definition walk_uses :: "node list \<Rightarrow> nat list \<Rightarrow> nat \<Rightarrow> (nat \<times> nat) list" where
  "walk_uses h ns inp = concat (map (node_uses h inp) ns)"

section \<open>Allocation\<close>

lemmas alloc_defs =
  Node_init_def Op_call_def Node_add_def Node_sub_def Node_mul_def Node_truediv_def

lemma example_graph_eq:
  "example_graph = (0, 1, 6,
     \<lparr>heap =
        [\<lparr>inputs = [], op = None, val = Some 2\<rparr>,
         \<lparr>inputs = [], op = None, val = Some 3\<rparr>,
         \<lparr>inputs = [0, 0], op = Some MulOp, val = None\<rparr>,
         \<lparr>inputs = [1, 1], op = Some MulOp, val = None\<rparr>,
         \<lparr>inputs = [2, 3], op = Some SubOp, val = None\<rparr>,
         \<lparr>inputs = [0, 1], op = Some DivOp, val = None\<rparr>,
         \<lparr>inputs = [4, 5], op = Some AddOp, val = None\<rparr>],
      forward_calls = 0\<rparr>)"
  by (simp add: example_graph_def empty_state_def alloc_defs)


section \<open>The operators\<close>

text \<open>
  Claim C2.  For a node \<open>node\<close> with the two inputs \<open>a\<close> and \<open>b\<close> and a gradient node
  \<open>g\<close>: Add's \<open>backward\<close> returns \<open>[g, g]\<close> and allocates nothing; Subtract's returns
  \<open>[g, m * g]\<close> for a new leaf \<open>m\<close> of value \<open>-1\<close>; Multiply's returns
  \<open>[b * g, a * g]\<close>; Divide's returns \<open>[g * (one / b), g * ((m * a) / (b * b))]\<close> for
  new leaves \<open>one\<close> and \<open>m\<close> of values \<open>1\<close> and \<open>-1\<close>.  Every product and quotient is a
  new node without a value, appended to the store; no arithmetic is done.
\<close>

theorem backward_rules:
  assumes "node < length (heap s)" and "inputs (heap s ! node) = [a, b]"
  shows "backward AddOp g node s = (Inr [g, g], s)
       \<and> backward SubOp g node s =
           (Inr [g, length (heap s) + 1],
            s\<lparr>heap := heap s @
              [\<lparr>inputs = [], op = None, val = Some (- 1)\<rparr>,
               \<lparr>inputs = [length (heap s), g], op = Some MulOp, val = None\<rparr>]\<rparr>)
       \<and> backward MulOp g node s =
           (Inr [length (heap s), length (heap s) + 1],
            s\<lparr>heap := heap s @
              [\<lparr>inputs = [b, g], op = Some MulOp, val = None\<rparr>,
               \<lparr>inputs = [a, g], op = Some MulOp, val = None\<rparr>]\<rparr>)
       \<and> backward DivOp g node s =
           (Inr [length (heap s) + 2, length (heap s) + 7],
            s\<lparr>heap := heap s @
              [\<lparr>inputs = [], op = None, val = Some 1\<rparr>,
               \<lparr>inputs = [length (heap s), b], op = Some DivOp, val = None\<rparr>,
               \<lparr>inputs = [g, length (heap s) + 1], op = Some MulOp, val = None\<rparr>,
               \<lparr>inputs = [], op = None, val = Some (- 1)\<rparr>,
               \<lparr>inputs = [length (heap s) + 3, a], op = Some MulOp, val = None\<rparr>,
               \<lparr>inputs = [b, b], op = Some MulOp, val = None\<rparr>,
               \<lparr>inputs = [length (heap s) + 4, length (heap s) + 5],
                  op = Some DivOp, val = None\<rparr>,
               \<lparr>inputs = [g, length (heap s) + 6], op = Some MulOp, val = None\<rparr>]\<rparr>)"
  using assms by (simp add: alloc_defs getitem_def nth_append)

text \<open>
  The rules at the root \<open>c\<close> of the example graph (address 6, inputs 4 and 5), with the
  gradient node at address 0.
\<close>

theorem backward_rules_witness:
  "(6::nat) < length (heap (snd (snd (snd example_graph))))
   \<and> inputs (heap (snd (snd (snd example_graph))) ! 6) = [4, 5]
   \<and> fst (backward AddOp 0 6 (snd (snd (snd example_graph)))) = Inr [0, 0]
   \<and> fst (backward SubOp 0 6 (snd (snd (snd example_graph)))) = Inr [0, 8]
   \<and> fst (backward MulOp 0 6 (snd (snd (snd example_graph)))) = Inr [7, 8]
   \<and> fst (backward DivOp 0 6 (snd (snd (snd example_graph)))) = Inr [9, 14]"
  using backward_rules [of 6 "snd (snd (snd example_graph))" 4 5 0]
  by (simp add: example_graph_eq)

text \<open>
  Claim C3.  For leaves \<open>a = Leaf(x)\<close> and \<open>b = Leaf(y)\<close>, allocated in any store, and
  a recursion limit of at least two: \<open>(a + b).eval()\<close> is \<open>x + y\<close>, \<open>(a - b).eval()\<close>
  is \<open>x - y\<close>, \<open>(a * b).eval()\<close> is \<open>x * y\<close> and, when \<open>y\<close> is not zero,
  \<open>(a / b).eval()\<close> is \<open>x / y\<close>.
\<close>

theorem eval_leaf_pair:
  "(case Node_init [] None (Some x) s of (a, s1) \<Rightarrow>
    case Node_init [] None (Some y) s1 of (b, s2) \<Rightarrow>
      (case Node_add a b s2 of (n, s3) \<Rightarrow> fst (eval (Suc (Suc k)) s3 n) = Inr (x + y))
    \<and> (case Node_sub a b s2 of (n, s3) \<Rightarrow> fst (eval (Suc (Suc k)) s3 n) = Inr (x - y))
    \<and> (case Node_mul a b s2 of (n, s3) \<Rightarrow> fst (eval (Suc (Suc k)) s3 n) = Inr (x * y))
    \<and> (y \<noteq> 0 \<longrightarrow>
        (case Node_truediv a b s2 of (n, s3) \<Rightarrow> fst (eval (Suc (Suc k)) s3 n) = Inr (x / y))))"
  by (simp add: alloc_defs getitem_def nth_append)

theorem eval_leaf_pair_witness:
  "(3::real) \<noteq> 0
   \<and> (case Node_init [] None (Some 6) empty_state of (a, s1) \<Rightarrow>
      case Node_init [] None (Some 3) s1 of (b, s2) \<Rightarrow>
      case Node_truediv a b s2 of (n, s3) \<Rightarrow> fst (eval 2 s3 n) = Inr 2)"
  using eval_leaf_pair [where x = 6 and y = 3 and s = empty_state and k = 0]
  by (simp add: alloc_defs numeral_2_eq_2)

text \<open>
  Claim C8, as the code has it.  Calling an operator with a number of nodes other than
  two fails at construction time and constructs no node (the store is unchanged); the
  error is Python's \<open>TypeError\<close>, the program has no \<open>ArityError\<close>.  Called with two
  nodes, as the infix operators do, it builds a node with these two inputs.  The
  constructor \<open>Node(inputs, op)\<close> itself checks nothing: given any list of inputs and
  any operator it allocates a node holding exactly these fields.  Such a node is
  usable: with three leaves as inputs its \<open>eval\<close> returns what the forward rule gives
  for the first two values.
\<close>

theorem construction_unchecked:
  "(length args \<noteq> 2 \<longrightarrow> Op_apply g args s = (Inl TypeError, s))
   \<and> Op_apply g [a, b] s =
       (Inr (length (heap s)),
        s\<lparr>heap := heap s @ [\<lparr>inputs = [a, b], op = Some g, val = None\<rparr>]\<rparr>)
   \<and> Node_add a b s = Op_call AddOp a b s \<and> Node_sub a b s = Op_call SubOp a b s
   \<and> Node_mul a b s = Op_call MulOp a b s \<and> Node_truediv a b s = Op_call DivOp a b s
   \<and> Op_call g a b s =
       (length (heap s), s\<lparr>heap := heap s @ [\<lparr>inputs = [a, b], op = Some g, val = None\<rparr>]\<rparr>)
   \<and> Node_init ins f v s =
       (length (heap s), s\<lparr>heap := heap s @ [\<lparr>inputs = ins, op = f, val = v\<rparr>]\<rparr>)
   \<and> (case Node_init [] None (Some x) s of (l1, s1) \<Rightarrow>
      case Node_init [] None (Some y) s1 of (l2, s2) \<Rightarrow>
      case Node_init [] None (Some z) s2 of (l3, s3) \<Rightarrow>
      case Node_init [l1, l2, l3] (Some g) None s3 of (n, s4) \<Rightarrow>
        fst (eval (Suc (Suc k)) s4 n) = forward g [x, y])"
proof -
  have "Op_apply g args s = (Inl TypeError, s)" if "length args \<noteq> 2"
  proof (cases args)
    case Nil
    then show ?thesis by (simp add: Op_apply_def)
  next
    case (Cons a1 r1)
    note c1 = this
    show ?thesis
    proof (cases r1)
      case Nil
      with c1 show ?thesis by (simp add: Op_apply_def)
    next
      case (Cons a2 r2)
      with c1 that obtain a3 r3 where "r2 = a3 # r3" by (cases r2) auto
      with c1 Cons show ?thesis by (simp add: Op_apply_def)
    qed
  qed
  moreover have "case Node_init [] None (Some x) s of (l1, s1) \<Rightarrow>
      case Node_init [] None (Some y) s1 of (l2, s2) \<Rightarrow>
      case Node_init [] None (Some z) s2 of (l3, s3) \<Rightarrow>
      case Node_init [l1, l2, l3] (Some g) None s3 of (n, s4) \<Rightarrow>
        fst (eval (Suc (Suc k)) s4 n) = forward g [x, y]"
    by (cases g) (simp_all add: alloc_defs getitem_def nth_append)
  ultimately show ?thesis by (simp add: Op_apply_def alloc_defs)
qed

text \<open>Add called with the three leaves of the store below: no node is constructed.\<close>

theorem construction_unchecked_witness:
  "length [0, 1, 2 :: nat] \<noteq> 2
   \<and> Op_apply AddOp [0, 1, 2] (snd ternary_add) = (Inl TypeError, snd ternary_add)"
  using construction_unchecked [where args = "[0, 1, 2]" and g = AddOp and s = "snd ternary_add"]
  by simp

text \<open>
  Against claim C8 as stated: constructing an Add node with three inputs does not
  fail.  The constructor returns a node (address 3) with the three inputs, and the
  node is usable: it evaluates to \<open>2 + 3\<close>.
\<close>

theorem ternary_add_counterexample:
  "(case ternary_add of (n, s) \<Rightarrow>
      n = 3 \<and> heap s ! n = \<lparr>inputs = [0, 1, 2], op = Some AddOp, val = None\<rparr>
      \<and> fst (eval 2 s n) = Inr 5)"
  by (simp add: ternary_add_def empty_state_def alloc_defs getitem_def eval_nat_numeral)

section \<open>The main program\<close>



section \<open>Allocation never touches an existing node\<close>

lemma extends_refl [simp]: "extends s s"
  by (simp add: extends_def)

lemma extends_trans: "extends s s1 \<Longrightarrow> extends s1 s2 \<Longrightarrow> extends s s2"
  by (auto simp: extends_def)

lemma extends_nth: "extends s s' \<Longrightarrow> n < length (heap s) \<Longrightarrow> heap s' ! n = heap s ! n"
  by (auto simp: extends_def prefix_def nth_append)

lemma extends_length: "extends s s' \<Longrightarrow> length (heap s) \<le> length (heap s')"
  by (auto simp: extends_def prefix_def)

lemma Node_init_extends: "Node_init ins f v s = (n, s') \<Longrightarrow> extends s s'"
  by (auto simp: Node_init_def extends_def)

lemma Op_call_extends: "Op_call f a b s = (n, s') \<Longrightarrow> extends s s'"
  by (auto simp: Op_call_def dest: Node_init_extends)

lemma Node_mul_extends: "Node_mul a b s = (n, s') \<Longrightarrow> extends s s'"
  by (auto simp: Node_mul_def dest: Op_call_extends)

lemma Node_truediv_extends: "Node_truediv a b s = (n, s') \<Longrightarrow> extends s s'"
  by (auto simp: Node_truediv_def dest: Op_call_extends)

lemma Node_add_extends: "Node_add a b s = (n, s') \<Longrightarrow> extends s s'"
  by (auto simp: Node_add_def dest: Op_call_extends)

lemma backward_extends: "backward f g n s = (r, s') \<Longrightarrow> extends s s'"
  by (cases f)
     (auto simp: alloc_defs extends_def split: sum.splits prod.splits)

lemma accumulate_extends: "accumulate ps grads s = (grads', s') \<Longrightarrow> extends s s'"
proof (induction ps arbitrary: grads s)
  case Nil
  then show ?case by simp
next
  case (Cons p ps)
  obtain inp in_grad where p: "p = (inp, in_grad)" by force
  show ?case
  proof (cases "grads inp")
    case None
    with Cons.prems p have "accumulate ps (grads(inp \<mapsto> in_grad)) s = (grads', s')" by simp
    then show ?thesis by (rule Cons.IH)
  next
    case (Some g)
    obtain r s1 where a: "Node_add g in_grad s = (r, s1)" by force
    with Cons.prems p Some have "accumulate ps (grads(inp \<mapsto> r)) s1 = (grads', s')" by simp
    then have "extends s1 s'" by (rule Cons.IH)
    with Node_add_extends [OF a] show ?thesis by (rule extends_trans)
  qed
qed

lemma walk_extends: "walk ns grads s = (r, s') \<Longrightarrow> extends s s'"
proof (induction ns arbitrary: grads s)
  case Nil
  then show ?case by simp
next
  case (Cons n ns)
  show ?case
  proof (cases "op (heap s ! n)")
    case None
    with Cons show ?thesis by simp
  next
    case (Some f)
    note f = this
    show ?thesis
    proof (cases "grads n")
      case None
      with Cons.prems f show ?thesis by simp
    next
      case (Some g)
      obtain rb s1 where b: "backward f g n s = (rb, s1)" by force
      have e1: "extends s s1" using b by (rule backward_extends)
      show ?thesis
      proof (cases rb)
        case (Inl e)
        with Cons.prems f Some b e1 show ?thesis by simp
      next
        case (Inr in_grads)
        obtain g1 s2 where a: "accumulate (zip (inputs (heap s1 ! n)) in_grads) grads s1 = (g1, s2)"
          by force
        have e2: "extends s1 s2" using a by (rule accumulate_extends)
        from Cons.prems f Some b Inr a have "walk ns g1 s2 = (r, s')" by simp
        then have "extends s2 s'" by (rule Cons.IH)
        with e1 e2 show ?thesis by (blast intro: extends_trans)
      qed
    qed
  qed
qed

lemma collect_extends: "collect ns grads s = (rs, s') \<Longrightarrow> extends s s'"
proof (induction ns arbitrary: s rs s')
  case Nil
  then show ?case by simp
next
  case (Cons n ns)
  obtain z s1 where z: "Node_init [] None (Some 0) s = (z, s1)" by force
  obtain rs1 s2 where c: "collect ns grads s1 = (rs1, s2)" by force
  from Cons.prems z c have "s' = s2" by simp
  with Node_init_extends [OF z] Cons.IH [OF c] show ?case by (blast intro: extends_trans)
qed

lemma gradients_extends: "gradients fuel s out wrt = (r, s') \<Longrightarrow> extends s s'"
proof -
  assume g: "gradients fuel s out wrt = (r, s')"
  obtain seed s1 where i: "Node_init [] None (Some 1) s = (seed, s1)" by force
  have e1: "extends s s1" using i by (rule Node_init_extends)
  show ?thesis
  proof (cases "build_topo fuel (heap s1) out ({}, [])")
    case None
    with g i e1 show ?thesis by (simp add: gradients_def)
  next
    case (Some st)
    obtain visited topo where st: "st = (visited, topo)" by force
    obtain rw s2 where w: "walk (rev topo) (Map.empty(out \<mapsto> seed)) s1 = (rw, s2)" by force
    have e2: "extends s1 s2" using w by (rule walk_extends)
    show ?thesis
    proof (cases rw)
      case (Inl e)
      with g i Some st w have "s' = s2" by (simp add: gradients_def)
      with e1 e2 show ?thesis by (blast intro: extends_trans)
    next
      case (Inr grads)
      obtain rs s3 where c: "collect wrt grads s2 = (rs, s3)" by force
      with g i Some st w Inr have "s' = s3" by (simp add: gradients_def)
      with e1 e2 collect_extends [OF c] show ?thesis by (blast intro: extends_trans)
    qed
  qed
qed

text \<open>
  Claim C10.  Whatever \<open>gradients\<close> returns or raises, the store after the call is
  the store before it with new nodes appended: every node that existed before has the
  same \<open>inputs\<close>, \<open>op\<close> and \<open>value\<close>, and no forward rule has been called.
\<close>

theorem gradients_frame:
  "extends s (snd (gradients fuel s output_node input_nodes))
   \<and> (\<forall>n < length (heap s). heap (snd (gradients fuel s output_node input_nodes)) ! n = heap s ! n)
   \<and> forward_calls (snd (gradients fuel s output_node input_nodes)) = forward_calls s"
proof -
  have e: "extends s (snd (gradients fuel s output_node input_nodes))"
    by (rule gradients_extends [of fuel s output_node input_nodes]) (rule surjective_pairing)
  then show ?thesis by (simp add: extends_nth) (simp add: extends_def)
qed

text \<open>The root \<open>c\<close> of the example graph is the same node after \<open>gradients(c, [a, b])\<close>.\<close>

theorem gradients_frame_witness:
  "(6::nat) < length (heap (snd (snd (snd example_graph))))
   \<and> heap (snd (gradients 5 (snd (snd (snd example_graph))) 6 [0, 1])) ! 6
       = \<lparr>inputs = [4, 5], op = Some AddOp, val = None\<rparr>
   \<and> forward_calls (snd (gradients 5 (snd (snd (snd example_graph))) 6 [0, 1])) = 0"
proof -
  have l: "(6::nat) < length (heap (snd (snd (snd example_graph))))"
    by (simp add: example_graph_eq)
  from gradients_frame [of "snd (snd (snd example_graph))" 5 6 "[0, 1]"] l
  have "heap (snd (gradients 5 (snd (snd (snd example_graph))) 6 [0, 1])) ! 6
          = heap (snd (snd (snd example_graph))) ! 6
        \<and> forward_calls (snd (gradients 5 (snd (snd (snd example_graph))) 6 [0, 1]))
          = forward_calls (snd (snd (snd example_graph)))"
    by blast
  with l show ?thesis by (simp add: example_graph_eq)
qed

section \<open>Evaluation only fills in values\<close>

lemma memoizes_refl [simp]: "memoizes s s"
  by (simp add: memoizes_def)

lemma memoizes_trans: "memoizes s s1 \<Longrightarrow> memoizes s1 s2 \<Longrightarrow> memoizes s s2"
  by (auto simp: memoizes_def)

lemma memoizes_length: "memoizes s s' \<Longrightarrow> length (heap s') = length (heap s)"
  by (simp add: memoizes_def)


lemma memoizes_op: "memoizes s s' \<Longrightarrow> m < length (heap s) \<Longrightarrow> op (heap s' ! m) = op (heap s ! m)"
  by (simp add: memoizes_def)

lemma memoizes_val: "memoizes s s' \<Longrightarrow> m < length (heap s) \<Longrightarrow> val (heap s ! m) = Some v \<Longrightarrow> val (heap s' ! m) = Some v"
  by (simp add: memoizes_def)

lemma memoizes_val_None: "memoizes s s' \<Longrightarrow> m < length (heap s) \<Longrightarrow> val (heap s' ! m) = None \<Longrightarrow> val (heap s ! m) = None"
  by (cases "val (heap s ! m)") (auto dest: memoizes_val)

lemma memoizes_count: "memoizes s (s\<lparr>forward_calls := c\<rparr>)"
  by (simp add: memoizes_def)

lemma nth_store_val:
  "m < length h \<Longrightarrow>
   h[n := (h ! n)\<lparr>val := x\<rparr>] ! m = (if m = n then (h ! n)\<lparr>val := x\<rparr> else h ! m)"
  by (cases "m = n") simp_all

lemma eval_inputs_memoizes_step:
  assumes "\<And>s n. memoizes s (snd (eval k s n))"
  shows "memoizes s (snd (eval_inputs k s ns))"
proof (induction ns arbitrary: s)
  case Nil
  show ?case by simp
next
  case (Cons i ns)
  obtain r s1 where e: "eval k s i = (r, s1)" by force
  have m1: "memoizes s s1" using assms [of s i] e by simp
  show ?case
  proof (cases r)
    case (Inl err)
    with e m1 show ?thesis by simp
  next
    case (Inr v)
    obtain r2 s2 where e2: "eval_inputs k s1 ns = (r2, s2)" by force
    have "memoizes s1 s2" using Cons.IH [of s1] e2 by simp
    with m1 have "memoizes s s2" by (rule memoizes_trans)
    with e Inr e2 show ?thesis by (cases r2) simp_all
  qed
qed

lemma eval_memoizes: "memoizes s (snd (eval k s n))"
proof (induction k arbitrary: s n)
  case 0
  show ?case by simp
next
  case (Suc k)
  show ?case
  proof (cases "val (heap s ! n)")
    case (Some v)
    then show ?thesis by simp
  next
    case None
    obtain r s1 where e: "eval_inputs k s (inputs (heap s ! n)) = (r, s1)" by force
    have m1: "memoizes s s1"
      using eval_inputs_memoizes_step [of k s "inputs (heap s ! n)"] Suc.IH e by simp
    show ?thesis
    proof (cases r)
      case (Inl err)
      with None e m1 show ?thesis by simp
    next
      case (Inr vs)
      note vs = this
      show ?thesis
      proof (cases "op (heap s1 ! n)")
        case None
        with \<open>val (heap s ! n) = None\<close> e vs m1 show ?thesis by simp
      next
        case (Some f)
        note f = this
        show ?thesis
        proof (cases "forward f vs")
          case (Inl err)
          have "memoizes s1 (s1\<lparr>forward_calls := forward_calls s1 + 1\<rparr>)"
            by (rule memoizes_count)
          with m1 have "memoizes s (s1\<lparr>forward_calls := forward_calls s1 + 1\<rparr>)"
            by (rule memoizes_trans)
          with None e vs f Inl show ?thesis by simp
        next
          case (Inr v)
          have m2: "memoizes s (s1\<lparr>heap := (heap s1)[n := (heap s1 ! n)\<lparr>val := Some v\<rparr>],
                            forward_calls := forward_calls s1 + 1\<rparr>)"
            using m1 None by (auto simp: memoizes_def nth_store_val)
          with None e vs f Inr show ?thesis by simp
        qed
      qed
    qed
  qed
qed

lemma eval_inputs_memoizes: "memoizes s (snd (eval_inputs k s ns))"
  by (rule eval_inputs_memoizes_step) (rule eval_memoizes)



lemma closed_nth:
  "closed h = (\<forall>c < length h. \<forall>i \<in> set (inputs (h ! c)). i < length h)"
  by (simp add: closed_def all_set_conv_all_nth)

lemma edges_memoizes: "memoizes s s' \<Longrightarrow> edges (heap s') = edges (heap s)"
  by (auto simp: edges_def memoizes_def)

lemma closed_memoizes: "memoizes s s' \<Longrightarrow> closed (heap s) \<Longrightarrow> closed (heap s')"
  by (simp add: closed_nth memoizes_def)

lemma reach_memoizes: "memoizes s s' \<Longrightarrow> reach (heap s') n = reach (heap s) n"
  by (simp add: reach_def edges_memoizes)

lemma reach_self: "n \<in> reach h n"
  by (simp add: reach_def)

lemma reach_input:
  assumes "c < length h" and "i \<in> set (inputs (h ! c))"
  shows "reach h i \<subseteq> reach h c"
proof
  fix m assume "m \<in> reach h i"
  then have "(m, i) \<in> (edges h)\<^sup>*" by (simp add: reach_def)
  moreover have "(i, c) \<in> edges h" using assms by (simp add: edges_def)
  ultimately have "(m, c) \<in> (edges h)\<^sup>*" by (rule rtrancl_into_rtrancl)
  then show "m \<in> reach h c" by (simp add: reach_def)
qed

lemma reach_bound:
  assumes "closed h" and "n < length h" and "m \<in> reach h n"
  shows "m < length h"
proof -
  from assms(3) have "(m, n) \<in> (edges h)\<^sup>*" by (simp add: reach_def)
  then show ?thesis
  proof (induction rule: converse_rtrancl_induct)
    case base
    show ?case by (rule assms(2))
  next
    case (step y z)
    then show ?case using assms(1) by (auto simp: edges_def closed_nth)
  qed
qed











section \<open>The error of a disconnected node\<close>

lemma forward_not_ValueError: "forward f vs \<noteq> Inl ValueError"
  by (cases f) (auto simp: getitem_def split: sum.splits)

lemma malformed_memoizes:
  assumes "memoizes s s'" and "m < length (heap s)" and "malformed s' m"
  shows "malformed s m"
  using assms memoizes_op [OF assms(1,2)] memoizes_val_None [OF assms(1,2)]
  by (simp add: malformed_def)

lemma eval_inputs_ValueError_step:
  assumes step: "\<And>s n. closed (heap s) \<Longrightarrow> n < length (heap s) \<Longrightarrow>
            fst (eval k s n) = Inl ValueError \<Longrightarrow> \<exists>m \<in> reach (heap s) n. malformed s m"
    and "closed (heap s)" and "\<forall>i \<in> set ns. i < length (heap s)"
    and "fst (eval_inputs k s ns) = Inl ValueError"
  shows "\<exists>i \<in> set ns. \<exists>m \<in> reach (heap s) i. malformed s m"
  using assms(2-)
proof (induction ns arbitrary: s)
  case Nil
  then show ?case by simp
next
  case (Cons i ns)
  obtain r s1 where e: "eval k s i = (r, s1)" by force
  have m1: "memoizes s s1" using eval_memoizes [of s k i] e by simp
  show ?case
  proof (cases r)
    case (Inl err)
    with Cons.prems e have "fst (eval k s i) = Inl ValueError" by simp
    with step [of s i] Cons.prems show ?thesis by auto
  next
    case (Inr v)
    obtain r2 s2 where e2: "eval_inputs k s1 ns = (r2, s2)" by force
    with Cons.prems e Inr have v: "fst (eval_inputs k s1 ns) = Inl ValueError"
      by (cases r2) simp_all
    have c1: "closed (heap s1)" using m1 Cons.prems(1) by (rule closed_memoizes)
    have b1: "\<forall>i \<in> set ns. i < length (heap s1)"
      using Cons.prems(2) memoizes_length [OF m1] by simp
    from Cons.IH [OF c1 b1 v] obtain j m
      where j: "j \<in> set ns" and m: "m \<in> reach (heap s1) j" and mal: "malformed s1 m" by blast
    have m': "m \<in> reach (heap s) j" using m reach_memoizes [OF m1] by simp
    have "j < length (heap s)" using j Cons.prems(2) by simp
    with Cons.prems(1) m' have "m < length (heap s)" by (blast intro: reach_bound)
    with m1 mal have "malformed s m" by (blast intro: malformed_memoizes)
    with j m' show ?thesis by auto
  qed
qed

lemma eval_ValueError_malformed:
  "closed (heap s) \<Longrightarrow> n < length (heap s) \<Longrightarrow> fst (eval k s n) = Inl ValueError \<Longrightarrow>
   \<exists>m \<in> reach (heap s) n. malformed s m"
proof (induction k arbitrary: s n)
  case 0
  then show ?case by simp
next
  case (Suc k)
  show ?case
  proof (cases "val (heap s ! n)")
    case (Some v)
    with Suc.prems show ?thesis by simp
  next
    case None
    obtain r s1 where e: "eval_inputs k s (inputs (heap s ! n)) = (r, s1)" by force
    have m1: "memoizes s s1" using eval_inputs_memoizes [of s k "inputs (heap s ! n)"] e by simp
    have b: "\<forall>i \<in> set (inputs (heap s ! n)). i < length (heap s)"
      using Suc.prems(1,2) by (simp add: closed_nth)
    show ?thesis
    proof (cases r)
      case (Inl err)
      with Suc.prems(3) None e have "fst (eval_inputs k s (inputs (heap s ! n))) = Inl ValueError"
        by simp
      from eval_inputs_ValueError_step [of k s "inputs (heap s ! n)", OF Suc.IH Suc.prems(1) b this]
      obtain i m where i: "i \<in> set (inputs (heap s ! n))" and m: "m \<in> reach (heap s) i"
        and mal: "malformed s m" by blast
      from reach_input [OF Suc.prems(2) i] m have "m \<in> reach (heap s) n" by blast
      with mal show ?thesis by blast
    next
      case (Inr vs)
      have "op (heap s1 ! n) = None"
      proof (cases "op (heap s1 ! n)")
        case None
        then show ?thesis .
      next
        case (Some f)
        with Suc.prems(3) None e Inr forward_not_ValueError [of f vs] show ?thesis
          by (cases "forward f vs") simp_all
      qed
      with memoizes_op [OF m1 Suc.prems(2)] None have "malformed s n"
        by (simp add: malformed_def)
      with reach_self [of n "heap s"] show ?thesis by blast
    qed
  qed
qed

lemma eval_inputs_error_split:
  "eval_inputs k s ins = (Inl e, s2) \<Longrightarrow>
   \<exists>pre i post vs s1. ins = pre @ i # post \<and> eval_inputs k s pre = (Inr vs, s1) \<and>
      eval k s1 i = (Inl e, s2)"
proof (induction ins arbitrary: s)
  case Nil
  then show ?case by simp
next
  case (Cons a ins)
  obtain r s1 where e: "eval k s a = (r, s1)" by force
  show ?case
  proof (cases r)
    case (Inl err)
    with Cons.prems e have "eval k s a = (Inl e, s2)" by simp
    moreover have "a # ins = [] @ a # ins" "eval_inputs k s [] = (Inr [], s)" by simp_all
    ultimately show ?thesis by blast
  next
    case (Inr v)
    with Cons.prems e have "eval_inputs k s1 ins = (Inl e, s2)"
      by (auto split: prod.splits sum.splits)
    from Cons.IH [OF this] obtain pre i post vs s0
      where 1: "ins = pre @ i # post" "eval_inputs k s1 pre = (Inr vs, s0)"
        "eval k s0 i = (Inl e, s2)" by blast
    from 1(2) e Inr have "eval_inputs k s (a # pre) = (Inr (v # vs), s0)" by simp
    moreover from 1(1) have "a # ins = (a # pre) @ i # post" by simp
    ultimately show ?thesis using 1(3) by blast
  qed
qed

lemma eval_inputs_fail:
  "eval_inputs k s pre = (Inr vs, s1) \<Longrightarrow> eval k s1 i = (Inl e, s2) \<Longrightarrow>
   eval_inputs k s (pre @ i # post) = (Inl e, s2)"
proof (induction pre arbitrary: s vs)
  case Nil
  then show ?case by simp
next
  case (Cons a pre)
  from Cons.prems(1) obtain v s0 vs0 where e: "eval k s a = (Inr v, s0)"
    and r: "eval_inputs k s0 pre = (Inr vs0, s1)"
    by (auto split: prod.splits sum.splits)
  from Cons.IH [OF r Cons.prems(2)] e show ?case by simp
qed

lemma calls_bound:
  "calls c d \<Longrightarrow> closed (heap (fst (snd c))) \<Longrightarrow> snd (snd c) < length (heap (fst (snd c))) \<Longrightarrow>
   closed (heap (fst (snd d))) \<and> snd (snd d) < length (heap (fst (snd d)))"
proof (induction rule: calls.induct)
  case (calls_self c)
  then show ?case by simp
next
  case (calls_input s n pre i post k vs s1 c)
  have m: "memoizes s s1" using eval_inputs_memoizes [of s k pre] calls_input.hyps(3) by simp
  from calls_input.prems have cl: "closed (heap s)" and n: "n < length (heap s)" by simp_all
  have "i \<in> set (inputs (heap s ! n))" using calls_input.hyps(2) by simp
  with cl n have "i < length (heap s)" by (simp add: closed_nth)
  with m have "i < length (heap s1)" by (simp add: memoizes_length)
  moreover have "closed (heap s1)" using m cl by (rule closed_memoizes)
  ultimately show ?case using calls_input.IH by simp
qed

lemma ValueError_calls:
  "closed (heap s) \<Longrightarrow> n < length (heap s) \<Longrightarrow> fst (eval k s n) = Inl ValueError \<Longrightarrow>
   \<exists>j sm m vs s'. calls (k, s, n) (Suc j, sm, m) \<and> malformed sm m \<and>
      eval_inputs j sm (inputs (heap sm ! m)) = (Inr vs, s')"
proof (induction k arbitrary: s n)
  case 0
  then show ?case by simp
next
  case (Suc k)
  let ?ins = "inputs (heap s ! n)"
  from Suc.prems(3) have none: "val (heap s ! n) = None"
    by (cases "val (heap s ! n)") simp_all
  obtain r s1 where e: "eval_inputs k s ?ins = (r, s1)" by force
  show ?case
  proof (cases r)
    case (Inl err)
    with Suc.prems(3) none e have "eval_inputs k s ?ins = (Inl ValueError, s1)" by simp
    from eval_inputs_error_split [OF this] obtain pre i post vs s0
      where sp: "?ins = pre @ i # post" "eval_inputs k s pre = (Inr vs, s0)"
        "eval k s0 i = (Inl ValueError, s1)" by blast
    have m: "memoizes s s0" using eval_inputs_memoizes [of s k pre] sp(2) by simp
    have "i \<in> set ?ins" using sp(1) by simp
    with Suc.prems(1,2) have "i < length (heap s)" by (simp add: closed_nth)
    with m have il: "i < length (heap s0)" by (simp add: memoizes_length)
    have c0: "closed (heap s0)" using m Suc.prems(1) by (rule closed_memoizes)
    from sp(3) have "fst (eval k s0 i) = Inl ValueError" by simp
    from Suc.IH [OF c0 il this] obtain j sm m' vs' s'
      where c: "calls (k, s0, i) (Suc j, sm, m')" "malformed sm m'"
        "eval_inputs j sm (inputs (heap sm ! m')) = (Inr vs', s')" by blast
    from calls_input [OF none sp(1) sp(2) c(1)] c(2,3) show ?thesis by blast
  next
    case (Inr vs)
    have m: "memoizes s s1" using eval_inputs_memoizes [of s k ?ins] e by simp
    have "op (heap s1 ! n) = None"
    proof (cases "op (heap s1 ! n)")
      case None
      then show ?thesis .
    next
      case (Some f)
      with Suc.prems(3) none e Inr forward_not_ValueError [of f vs] show ?thesis
        by (cases "forward f vs") simp_all
    qed
    with memoizes_op [OF m Suc.prems(2)] none have "malformed s n"
      by (simp add: malformed_def)
    with e Inr calls_self [of "(Suc k, s, n)"] show ?thesis by blast
  qed
qed

lemma calls_ValueError:
  assumes "calls c d" and "closed (heap (fst (snd c)))"
    and "snd (snd c) < length (heap (fst (snd c)))"
    and "d = (Suc j, sm, m)" and "malformed sm m"
    and "eval_inputs j sm (inputs (heap sm ! m)) = (Inr vs, s')"
  shows "fst (eval (fst c) (fst (snd c)) (snd (snd c))) = Inl ValueError"
  using assms
proof (induction rule: calls.induct)
  case (calls_self c)
  then have c: "c = (Suc j, sm, m)" and ml: "m < length (heap sm)" by simp_all
  have mm: "memoizes sm s'"
    using eval_inputs_memoizes [of sm j "inputs (heap sm ! m)"] calls_self.prems(5) by simp
  with calls_self.prems(4) ml have "op (heap s' ! m) = None"
    by (simp add: memoizes_def malformed_def)
  with calls_self.prems(4,5) show ?case by (simp add: c malformed_def)
next
  case (calls_input s n pre i post k vs0 s1 c)
  have m: "memoizes s s1" using eval_inputs_memoizes [of s k pre] calls_input.hyps(3) by simp
  from calls_input.prems have cl: "closed (heap s)" and n: "n < length (heap s)" by simp_all
  have "i \<in> set (inputs (heap s ! n))" using calls_input.hyps(2) by simp
  with cl n have "i < length (heap s)" by (simp add: closed_nth)
  with m have il: "i < length (heap s1)" by (simp add: memoizes_length)
  have c1: "closed (heap s1)" using m cl by (rule closed_memoizes)
  from calls_input.IH c1 il calls_input.prems(3,4,5)
  have "fst (eval k s1 i) = Inl ValueError" by simp
  then obtain s2 where "eval k s1 i = (Inl ValueError, s2)" by (metis prod.collapse)
  from eval_inputs_fail [OF calls_input.hyps(3) this, of post] calls_input.hyps(2)
  have "eval_inputs k s (inputs (heap s ! n)) = (Inl ValueError, s2)" by simp
  with calls_input.hyps(1) show ?case by simp
qed

text \<open>
  Claim C9, as the code has it.  The error for a disconnected node is the
  \<open>ValueError\<close> of \<open>eval\<close>.  In a store without dangling references, \<open>n.eval()\<close>
  fails with this error exactly when it comes to a call of \<open>eval\<close> on a node with
  neither operator nor value whose inputs have all been evaluated (a node without
  inputs at once): the inputs are evaluated before the operator is looked at.  So
  the error implies that such a node is reachable from \<open>n\<close>; on a node with a cached
  value \<open>eval\<close> returns the value; and when every node reachable from \<open>n\<close> has an
  operator or a value, this error is not raised.
\<close>

theorem eval_ValueError:
  assumes "closed (heap s)" and "n < length (heap s)"
  shows "(fst (eval k s n) = Inl ValueError \<longleftrightarrow>
            (\<exists>j sm m vs s'. calls (k, s, n) (Suc j, sm, m) \<and> malformed sm m \<and>
               eval_inputs j sm (inputs (heap sm ! m)) = (Inr vs, s')))
       \<and> (fst (eval k s n) = Inl ValueError \<longrightarrow> (\<exists>m \<in> reach (heap s) n. malformed s m))
       \<and> (malformed s n \<and> (\<exists>vs s1. eval_inputs k s (inputs (heap s ! n)) = (Inr vs, s1))
            \<longrightarrow> fst (eval (Suc k) s n) = Inl ValueError)
       \<and> (malformed s n \<and> inputs (heap s ! n) = [] \<longrightarrow> eval (Suc k) s n = (Inl ValueError, s))
       \<and> (\<forall>v. val (heap s ! n) = Some v \<longrightarrow> eval (Suc k) s n = (Inr v, s))
       \<and> ((\<forall>m \<in> reach (heap s) n. \<not> malformed s m) \<longrightarrow> fst (eval k s n) \<noteq> Inl ValueError)"
proof -
  have i: "fst (eval k s n) = Inl ValueError \<longleftrightarrow>
            (\<exists>j sm m vs s'. calls (k, s, n) (Suc j, sm, m) \<and> malformed sm m \<and>
               eval_inputs j sm (inputs (heap sm ! m)) = (Inr vs, s'))"
  proof
    assume "fst (eval k s n) = Inl ValueError"
    with assms show "\<exists>j sm m vs s'. calls (k, s, n) (Suc j, sm, m) \<and> malformed sm m \<and>
               eval_inputs j sm (inputs (heap sm ! m)) = (Inr vs, s')"
      by (rule ValueError_calls)
  next
    assume "\<exists>j sm m vs s'. calls (k, s, n) (Suc j, sm, m) \<and> malformed sm m \<and>
               eval_inputs j sm (inputs (heap sm ! m)) = (Inr vs, s')"
    then obtain j sm m vs s' where c: "calls (k, s, n) (Suc j, sm, m)" "malformed sm m"
      "eval_inputs j sm (inputs (heap sm ! m)) = (Inr vs, s')" by blast
    from calls_ValueError [OF c(1) _ _ refl c(2,3)] assms
    show "fst (eval k s n) = Inl ValueError" by simp
  qed
  have a: "fst (eval k s n) = Inl ValueError \<Longrightarrow> \<exists>m \<in> reach (heap s) n. malformed s m"
    using assms by (rule eval_ValueError_malformed)
  have b: "fst (eval (Suc k) s n) = Inl ValueError"
    if mal: "malformed s n" and e: "eval_inputs k s (inputs (heap s ! n)) = (Inr vs, s1)" for vs s1
  proof -
    have m1: "memoizes s s1" using eval_inputs_memoizes [of s k "inputs (heap s ! n)"] e by simp
    with assms(2) mal have "op (heap s1 ! n) = None" by (simp add: memoizes_def malformed_def)
    with mal e show ?thesis by (simp add: malformed_def)
  qed
  have c: "eval (Suc k) s n = (Inl ValueError, s)" if "malformed s n" "inputs (heap s ! n) = []"
    using that by (simp add: malformed_def)
  have a': "fst (eval k s n) = Inl ValueError \<longrightarrow> (\<exists>m \<in> reach (heap s) n. malformed s m)"
    using a by blast
  have b': "malformed s n \<and> (\<exists>vs s1. eval_inputs k s (inputs (heap s ! n)) = (Inr vs, s1))
            \<longrightarrow> fst (eval (Suc k) s n) = Inl ValueError"
    using b by blast
  have c': "malformed s n \<and> inputs (heap s ! n) = [] \<longrightarrow> eval (Suc k) s n = (Inl ValueError, s)"
    using c by blast
  have d': "\<forall>v. val (heap s ! n) = Some v \<longrightarrow> eval (Suc k) s n = (Inr v, s)"
    by simp
  have e': "(\<forall>m \<in> reach (heap s) n. \<not> malformed s m) \<longrightarrow> fst (eval k s n) \<noteq> Inl ValueError"
    using a by blast
  show ?thesis by (intro conjI) (fact i a' b' c' d' e')+
qed


text \<open>
  The sum of a leaf and a disconnected node: the call on the sum comes to the
  disconnected node, after the leaf.
\<close>

theorem eval_ValueError_witness:
  "closed (heap (snd disconnected_graph))
   \<and> (2::nat) < length (heap (snd disconnected_graph))
   \<and> calls (2, snd disconnected_graph, 2) (Suc 0, snd disconnected_graph, 1)
   \<and> malformed (snd disconnected_graph) 1
   \<and> eval_inputs 0 (snd disconnected_graph) (inputs (heap (snd disconnected_graph) ! 1))
       = (Inr [], snd disconnected_graph)
   \<and> fst (eval 2 (snd disconnected_graph) 2) = Inl ValueError
   \<and> (\<exists>m \<in> reach (heap (snd disconnected_graph)) 2. malformed (snd disconnected_graph) m)
   \<and> eval (Suc 2) (snd disconnected_graph) 1 = (Inl ValueError, snd disconnected_graph)
   \<and> val (heap (snd disconnected_graph) ! 0) = Some 2
   \<and> eval (Suc 2) (snd disconnected_graph) 0 = (Inr 2, snd disconnected_graph)"
proof -
  let ?s = "snd disconnected_graph"
  have s: "?s = \<lparr>heap = [\<lparr>inputs = [], op = None, val = Some 2\<rparr>,
                          \<lparr>inputs = [], op = None, val = None\<rparr>,
                          \<lparr>inputs = [0, 1], op = Some AddOp, val = None\<rparr>],
                  forward_calls = 0\<rparr>"
    by (simp add: disconnected_graph_def empty_state_def alloc_defs)
  have c: "closed (heap ?s)" by (simp add: s closed_def)
  have l: "(2::nat) < length (heap ?s)" by (simp add: s)
  have l1: "(1::nat) < length (heap ?s)" by (simp add: s)
  have l0: "(0::nat) < length (heap ?s)" by (simp add: s)
  have m: "malformed ?s 1" by (simp add: s malformed_def)
  have i: "inputs (heap ?s ! 1) = []" by (simp add: s)
  have v: "val (heap ?s ! 0) = Some 2" by (simp add: s)
  have ei: "eval_inputs 0 ?s (inputs (heap ?s ! 1)) = (Inr [], ?s)" unfolding i by simp
  have "val (heap ?s ! 2) = None" "inputs (heap ?s ! 2) = [0] @ 1 # []"
    "eval_inputs (Suc 0) ?s [0] = (Inr [2], ?s)"
    by (simp_all add: s)
  from calls_input [OF this calls_self]
  have cl: "calls (2, ?s, 2) (Suc 0, ?s, 1)" by (simp add: numeral_2_eq_2)
  note ev = eval_ValueError [OF c l, of 2]
  from ev cl m ei have e: "fst (eval 2 ?s 2) = Inl ValueError" by blast
  with ev have r: "\<exists>m \<in> reach (heap ?s) 2. malformed ?s m" by blast
  from eval_ValueError [OF c l1, of 2] m i
  have e1: "eval (Suc 2) ?s 1 = (Inl ValueError, ?s)" by blast
  from eval_ValueError [OF c l0, of 2] v
  have e0: "eval (Suc 2) ?s 0 = (Inr 2, ?s)" by blast
  from c l cl m ei e r e1 v e0 show ?thesis by blast
qed

text \<open>
  Against claim C9 as stated: \<open>eval\<close> on the node \<open>Node([q], None)\<close>, which has
  neither operator nor value, evaluates the input \<open>q = 1 / 0\<close> first and fails with
  \<open>ZeroDivisionError\<close>, not with the error of a disconnected node.
\<close>

theorem failing_input_counterexample:
  "(case failing_input_graph of (n, s) \<Rightarrow>
      closed (heap s) \<and> n < length (heap s) \<and> malformed s n
      \<and> calls (3, s, n) (3, s, n) \<and> fst (eval 3 s n) = Inl ZeroDivisionError)"
proof -
  have s: "failing_input_graph = (3,
     \<lparr>heap = [\<lparr>inputs = [], op = None, val = Some 1\<rparr>,
              \<lparr>inputs = [], op = None, val = Some 0\<rparr>,
              \<lparr>inputs = [0, 1], op = Some DivOp, val = None\<rparr>,
              \<lparr>inputs = [2], op = None, val = None\<rparr>],
      forward_calls = 0\<rparr>)"
    by (simp add: failing_input_graph_def empty_state_def alloc_defs)
  show ?thesis
    by (simp add: s closed_def malformed_def calls_self eval_nat_numeral getitem_def)
qed

section \<open>The depth-first traversal\<close>

lemma finite_edges: "finite (edges h)"
proof -
  have "edges h \<subseteq> (\<Union>c \<in> {..<length h}. (\<lambda>i. (i, c)) ` set (inputs (h ! c)))"
    by (auto simp: edges_def)
  moreover have "finite (\<Union>c \<in> {..<length h}. (\<lambda>i. (i, c)) ` set (inputs (h ! c)))"
    by simp
  ultimately show ?thesis by (rule finite_subset)
qed

lemma wf_edges: "acyclic (edges h) \<Longrightarrow> wf (edges h)"
  by (rule finite_acyclic_wf [OF finite_edges])

lemma reach_unfold:
  assumes "n < length h"
  shows "reach h n = insert n (\<Union>i \<in> set (inputs (h ! n)). reach h i)"
proof
  show "reach h n \<subseteq> insert n (\<Union>i \<in> set (inputs (h ! n)). reach h i)"
  proof
    fix m assume "m \<in> reach h n"
    then have "(m, n) \<in> (edges h)\<^sup>*" by (simp add: reach_def)
    then show "m \<in> insert n (\<Union>i \<in> set (inputs (h ! n)). reach h i)"
    proof (cases rule: rtranclE)
      case base
      then show ?thesis by simp
    next
      case (step y)
      then have "y \<in> set (inputs (h ! n))" by (simp add: edges_def)
      moreover from step have "m \<in> reach h y" by (simp add: reach_def)
      ultimately show ?thesis by blast
    qed
  qed
  show "insert n (\<Union>i \<in> set (inputs (h ! n)). reach h i) \<subseteq> reach h n"
    using reach_self [of n h] reach_input [OF assms] by blast
qed

lemma acyclic_not_reach:
  assumes "acyclic (edges h)" and "c < length h" and "i \<in> set (inputs (h ! c))"
  shows "c \<notin> reach h i"
proof
  assume "c \<in> reach h i"
  then have "(c, i) \<in> (edges h)\<^sup>*" by (simp add: reach_def)
  moreover have "(i, c) \<in> edges h" using assms(2,3) by (simp add: edges_def)
  ultimately have "(c, c) \<in> (edges h)\<^sup>+" by (rule rtrancl_into_trancl1)
  with assms(1) show False by (simp add: acyclic_def)
qed

lemma topo_sorted_inputs:
  assumes "topo_sorted h topo" and "z \<in> set topo"
  shows "set (inputs (h ! z)) \<subseteq> set topo"
proof -
  from assms(2) obtain j where j: "j < length topo" "topo ! j = z"
    by (auto simp: in_set_conv_nth)
  with assms(1) have "set (inputs (h ! z)) \<subseteq> set (take j topo)"
    by (auto simp: topo_sorted_def)
  also have "\<dots> \<subseteq> set topo" by (rule set_take_subset)
  finally show ?thesis .
qed

lemma topo_sorted_reach:
  assumes "topo_sorted h topo" and "m \<in> set topo"
  shows "reach h m \<subseteq> set topo"
proof
  fix x assume "x \<in> reach h m"
  then have "(x, m) \<in> (edges h)\<^sup>*" by (simp add: reach_def)
  then show "x \<in> set topo"
  proof (induction rule: converse_rtrancl_induct)
    case base
    show ?case by (rule assms(2))
  next
    case (step y z)
    then have "y \<in> set (inputs (h ! z))" by (simp add: edges_def)
    with topo_sorted_inputs [OF assms(1) step.IH] show ?case by blast
  qed
qed

lemma topo_sorted_snoc:
  assumes "topo_sorted h topo" and "set (inputs (h ! n)) \<subseteq> set topo"
  shows "topo_sorted h (topo @ [n])"
  unfolding topo_sorted_def
proof (intro allI impI)
  fix j assume "j < length (topo @ [n])"
  then consider "j < length topo" | "j = length topo" by fastforce
  then show "set (inputs (h ! ((topo @ [n]) ! j))) \<subseteq> set (take j (topo @ [n]))"
  proof cases
    case 1
    with assms(1) show ?thesis by (simp add: topo_sorted_def nth_append)
  next
    case 2
    with assms(2) show ?thesis by simp
  qed
qed

lemma build_topo_inputs_spec:
  assumes "\<forall>i \<in> set ins. \<exists>k. \<forall>fuel \<ge> k. \<forall>st.
             dfs_pre h (reach h i) st \<longrightarrow> dfs_post h (reach h i) st (build_topo fuel h i st)"
  shows "\<exists>k. \<forall>fuel \<ge> k. \<forall>st.
           dfs_pre h (\<Union>i \<in> set ins. reach h i) st \<longrightarrow>
           dfs_post h (\<Union>i \<in> set ins. reach h i) st (build_topo_inputs fuel h ins st)"
  using assms
proof (induction ins)
  case Nil
  show ?case by (auto simp: dfs_post_def dfs_pre_def)
next
  case (Cons i ins)
  from Cons.prems obtain k1 where k1: "\<forall>fuel \<ge> k1. \<forall>st.
      dfs_pre h (reach h i) st \<longrightarrow> dfs_post h (reach h i) st (build_topo fuel h i st)"
    by auto
  from Cons.prems have "\<forall>i \<in> set ins. \<exists>k. \<forall>fuel \<ge> k. \<forall>st.
      dfs_pre h (reach h i) st \<longrightarrow> dfs_post h (reach h i) st (build_topo fuel h i st)"
    by simp
  from Cons.IH [OF this] obtain k2 where k2: "\<forall>fuel \<ge> k2. \<forall>st.
      dfs_pre h (\<Union>i \<in> set ins. reach h i) st \<longrightarrow>
      dfs_post h (\<Union>i \<in> set ins. reach h i) st (build_topo_inputs fuel h ins st)"
    by blast
  let ?R = "\<Union>i \<in> set ins. reach h i"
  have "dfs_post h (\<Union>j \<in> set (i # ins). reach h j) st (build_topo_inputs fuel h (i # ins) st)"
    if fuel: "max k1 k2 \<le> fuel" and pre: "dfs_pre h (\<Union>j \<in> set (i # ins). reach h j) st"
    for fuel st
  proof -
    obtain vis topo where st: "st = (vis, topo)" by force
    from pre st have p: "set topo \<subseteq> vis" "distinct topo" "topo_sorted h topo"
      "(vis - set topo) \<inter> reach h i = {}" "(vis - set topo) \<inter> ?R = {}"
      by (auto simp: dfs_pre_def)
    then have "dfs_pre h (reach h i) st" by (simp add: dfs_pre_def st)
    with k1 fuel have "dfs_post h (reach h i) st (build_topo fuel h i st)" by (simp add: st)
    then have "\<exists>new. build_topo fuel h i st = Some (vis \<union> set new, topo @ new) \<and>
      set new = reach h i - set topo \<and> distinct (topo @ new) \<and> topo_sorted h (topo @ new)"
      by (simp only: dfs_post_def st prod.case)
    then obtain new1 where n1: "build_topo fuel h i st = Some (vis \<union> set new1, topo @ new1)"
      "set new1 = reach h i - set topo" "distinct (topo @ new1)" "topo_sorted h (topo @ new1)"
      by blast
    have "dfs_pre h ?R (vis \<union> set new1, topo @ new1)"
      using p n1 by (auto simp: dfs_pre_def)
    with k2 fuel have "dfs_post h ?R (vis \<union> set new1, topo @ new1)
        (build_topo_inputs fuel h ins (vis \<union> set new1, topo @ new1))" by simp
    then have "\<exists>new. build_topo_inputs fuel h ins (vis \<union> set new1, topo @ new1)
          = Some (vis \<union> set new1 \<union> set new, (topo @ new1) @ new) \<and>
      set new = ?R - set (topo @ new1) \<and> distinct ((topo @ new1) @ new) \<and>
      topo_sorted h ((topo @ new1) @ new)"
      by (simp only: dfs_post_def prod.case)
    then obtain new2 where n2: "build_topo_inputs fuel h ins (vis \<union> set new1, topo @ new1)
          = Some (vis \<union> set new1 \<union> set new2, (topo @ new1) @ new2)"
      "set new2 = ?R - set (topo @ new1)" "distinct ((topo @ new1) @ new2)"
      "topo_sorted h ((topo @ new1) @ new2)"
      by blast
    have a: "build_topo_inputs fuel h (i # ins) st
          = Some (vis \<union> set (new1 @ new2), topo @ (new1 @ new2))"
      using n1(1) n2(1) by (simp add: Un_assoc)
    have b: "set (new1 @ new2) = (\<Union>j \<in> set (i # ins). reach h j) - set topo"
      using n1(2) n2(2) by auto
    from n2(3,4) have c: "distinct (topo @ (new1 @ new2))" "topo_sorted h (topo @ (new1 @ new2))"
      by simp_all
    from a b c show ?thesis unfolding dfs_post_def st prod.case by blast
  qed
  then show ?case by blast
qed


lemma build_topo_step:
  assumes h: "acyclic (edges h)" and n: "n < length h"
    and ins: "\<forall>fuel \<ge> k. \<forall>st.
           dfs_pre h (\<Union>i \<in> set (inputs (h ! n)). reach h i) st \<longrightarrow>
           dfs_post h (\<Union>i \<in> set (inputs (h ! n)). reach h i) st
             (build_topo_inputs fuel h (inputs (h ! n)) st)"
    and fuel: "Suc k \<le> fuel" and pre: "dfs_pre h (reach h n) st"
  shows "dfs_post h (reach h n) st (build_topo fuel h n st)"
proof -
  let ?R = "\<Union>i \<in> set (inputs (h ! n)). reach h i"
  obtain f where f: "fuel = Suc f" "k \<le> f" using fuel by (cases fuel) auto
  obtain vis topo where st: "st = (vis, topo)" by force
  from pre st have p: "set topo \<subseteq> vis" "distinct topo" "topo_sorted h topo"
    "(vis - set topo) \<inter> reach h n = {}"
    by (auto simp: dfs_pre_def)
  have R: "reach h n = insert n ?R" using n by (rule reach_unfold)
  show ?thesis
  proof (cases "n \<in> vis")
    case True
    with p(4) reach_self [of n h] have "n \<in> set topo" by blast
    with p(3) have "reach h n \<subseteq> set topo" by (rule topo_sorted_reach)
    then have "set [] = reach h n - set topo" by simp
    moreover have "build_topo fuel h n st = Some (vis \<union> set [], topo @ [])"
      using True by (simp add: f st)
    ultimately show ?thesis unfolding dfs_post_def st prod.case using p(2,3)
      by (metis append_Nil2)
  next
    case False
    have nR: "n \<notin> ?R" using acyclic_not_reach [OF h n] by blast
    have nt: "n \<notin> set topo" using False p(1) by blast
    have "dfs_pre h ?R (insert n vis, topo)"
      using p nR R by (auto simp: dfs_pre_def)
    with ins f(2) have "dfs_post h ?R (insert n vis, topo)
        (build_topo_inputs f h (inputs (h ! n)) (insert n vis, topo))" by simp
    then have "\<exists>new. build_topo_inputs f h (inputs (h ! n)) (insert n vis, topo)
          = Some (insert n vis \<union> set new, topo @ new) \<and>
      set new = ?R - set topo \<and> distinct (topo @ new) \<and> topo_sorted h (topo @ new)"
      by (simp only: dfs_post_def prod.case)
    then obtain new1 where n1: "build_topo_inputs f h (inputs (h ! n)) (insert n vis, topo)
          = Some (insert n vis \<union> set new1, topo @ new1)"
      "set new1 = ?R - set topo" "distinct (topo @ new1)" "topo_sorted h (topo @ new1)"
      by blast
    have a: "build_topo fuel h n st = Some (vis \<union> set (new1 @ [n]), topo @ (new1 @ [n]))"
      using False n1(1) by (simp add: f st)
    have b: "set (new1 @ [n]) = reach h n - set topo"
      using n1(2) R nt by auto
    have c: "distinct (topo @ (new1 @ [n]))"
      using n1(2,3) nR nt by auto
    have "set (inputs (h ! n)) \<subseteq> set (topo @ new1)"
      using n1(2) reach_self by fastforce
    with n1(4) have "topo_sorted h ((topo @ new1) @ [n])" by (rule topo_sorted_snoc)
    then have d: "topo_sorted h (topo @ (new1 @ [n]))" by simp
    from a b c d show ?thesis unfolding dfs_post_def st prod.case by blast
  qed
qed

lemma build_topo_spec:
  assumes c: "closed h" and a: "acyclic (edges h)"
  shows "n < length h \<longrightarrow>
         (\<exists>k. \<forall>fuel \<ge> k. \<forall>st.
            dfs_pre h (reach h n) st \<longrightarrow> dfs_post h (reach h n) st (build_topo fuel h n st))"
proof (induction n rule: wf_induct_rule [OF wf_edges [OF a]])
  case (1 n)
  show ?case
  proof
    assume n: "n < length h"
    have "\<forall>i \<in> set (inputs (h ! n)). \<exists>k. \<forall>fuel \<ge> k. \<forall>st.
             dfs_pre h (reach h i) st \<longrightarrow> dfs_post h (reach h i) st (build_topo fuel h i st)"
    proof
      fix i assume i: "i \<in> set (inputs (h ! n))"
      with n have "(i, n) \<in> edges h" by (simp add: edges_def)
      moreover from c n i have "i < length h" by (simp add: closed_nth)
      ultimately show "\<exists>k. \<forall>fuel \<ge> k. \<forall>st.
             dfs_pre h (reach h i) st \<longrightarrow> dfs_post h (reach h i) st (build_topo fuel h i st)"
        using 1 by blast
    qed
    from build_topo_inputs_spec [OF this] obtain k where k: "\<forall>fuel \<ge> k. \<forall>st.
           dfs_pre h (\<Union>i \<in> set (inputs (h ! n)). reach h i) st \<longrightarrow>
           dfs_post h (\<Union>i \<in> set (inputs (h ! n)). reach h i) st
             (build_topo_inputs fuel h (inputs (h ! n)) st)"
      by blast
    have "\<forall>fuel \<ge> Suc k. \<forall>st.
            dfs_pre h (reach h n) st \<longrightarrow> dfs_post h (reach h n) st (build_topo fuel h n st)"
      using build_topo_step [OF a n k] by blast
    then show "\<exists>k. \<forall>fuel \<ge> k. \<forall>st.
            dfs_pre h (reach h n) st \<longrightarrow> dfs_post h (reach h n) st (build_topo fuel h n st)"
      by blast
  qed
qed

lemma build_topo_correct:
  assumes "closed h" and "acyclic (edges h)" and "n < length h"
  shows "\<exists>k. \<forall>fuel \<ge> k. \<exists>topo.
           build_topo fuel h n ({}, []) = Some (set topo, topo) \<and>
           distinct topo \<and> set topo = reach h n \<and> topo_sorted h topo"
proof -
  from build_topo_spec [OF assms(1,2), of n] assms(3) obtain k where k: "\<forall>fuel \<ge> k. \<forall>st.
      dfs_pre h (reach h n) st \<longrightarrow> dfs_post h (reach h n) st (build_topo fuel h n st)"
    by blast
  have p: "dfs_pre h (reach h n) ({}, [])" by (simp add: dfs_pre_def topo_sorted_def)
  have "\<exists>topo. build_topo fuel h n ({}, []) = Some (set topo, topo) \<and>
           distinct topo \<and> set topo = reach h n \<and> topo_sorted h topo" if "k \<le> fuel" for fuel
  proof -
    from k that p have "dfs_post h (reach h n) ({}, []) (build_topo fuel h n ({}, []))" by blast
    then show ?thesis by (simp add: dfs_post_def) blast
  qed
  then show ?thesis by blast
qed

section \<open>The reverse walk\<close>

lemma backward_binary:
  assumes "n < length (heap s)" and "length (inputs (heap s ! n)) = 2"
  shows "\<exists>r1 r2 s1. backward f g n s = (Inr [r1, r2], s1)"
proof -
  from assms(2) obtain a b where "inputs (heap s ! n) = [a, b]"
    by (cases "inputs (heap s ! n)" rule: list.exhaust)
       (auto simp: length_Suc_conv numeral_2_eq_2)
  with assms(1) show ?thesis
    by (cases f) (simp_all add: alloc_defs getitem_def nth_append)
qed

lemma accumulate_dom:
  "accumulate ps grads s = (grads', s') \<Longrightarrow> dom grads' = dom grads \<union> fst ` set ps"
proof (induction ps arbitrary: grads s)
  case Nil
  then show ?case by simp
next
  case (Cons p ps)
  obtain inp in_grad where p: "p = (inp, in_grad)" by force
  show ?case
  proof (cases "grads inp")
    case None
    with Cons.prems p have "accumulate ps (grads(inp \<mapsto> in_grad)) s = (grads', s')" by simp
    from Cons.IH [OF this] p show ?thesis by auto
  next
    case (Some g)
    obtain r s1 where a: "Node_add g in_grad s = (r, s1)" by force
    with Cons.prems p Some have "accumulate ps (grads(inp \<mapsto> r)) s1 = (grads', s')" by simp
    from Cons.IH [OF this] p show ?thesis by auto
  qed
qed

lemma accumulate_other:
  "accumulate ps grads s = (grads', s') \<Longrightarrow> x \<notin> fst ` set ps \<Longrightarrow> grads' x = grads x"
proof (induction ps arbitrary: grads s)
  case Nil
  then show ?case by simp
next
  case (Cons p ps)
  obtain inp in_grad where p: "p = (inp, in_grad)" by force
  with Cons.prems(2) have x: "x \<noteq> inp" "x \<notin> fst ` set ps" by auto
  show ?case
  proof (cases "grads inp")
    case None
    with Cons.prems p have "accumulate ps (grads(inp \<mapsto> in_grad)) s = (grads', s')" by simp
    from Cons.IH [OF this x(2)] x(1) show ?thesis by simp
  next
    case (Some g)
    obtain r s1 where a: "Node_add g in_grad s = (r, s1)" by force
    with Cons.prems p Some have "accumulate ps (grads(inp \<mapsto> r)) s1 = (grads', s')" by simp
    from Cons.IH [OF this x(2)] x(1) show ?thesis by simp
  qed
qed

lemma walk_returns:
  assumes "\<forall>n \<in> set ns. n < length (heap s) \<and>
             length (inputs (heap s ! n)) = (if op (heap s ! n) = None then 0 else 2)"
    and "\<forall>i < length ns. op (heap s ! (ns ! i)) \<noteq> None \<longrightarrow>
             ns ! i \<in> dom grads \<or> (\<exists>j < i. ns ! i \<in> set (inputs (heap s ! (ns ! j))))"
  shows "\<exists>grads' s'. walk ns grads s = (Inr grads', s')"
  using assms
proof (induction ns arbitrary: grads s)
  case Nil
  show ?case by simp
next
  case (Cons n ns)
  from Cons.prems(1) have n: "n < length (heap s)"
    and ar: "length (inputs (heap s ! n)) = (if op (heap s ! n) = None then 0 else 2)"
    by simp_all
  show ?case
  proof (cases "op (heap s ! n)")
    case None
    with ar have empty: "inputs (heap s ! n) = []" by simp
    have 1: "\<forall>m \<in> set ns. m < length (heap s) \<and>
             length (inputs (heap s ! m)) = (if op (heap s ! m) = None then 0 else 2)"
      using Cons.prems(1) by simp
    have 2: "\<forall>i < length ns. op (heap s ! (ns ! i)) \<noteq> None \<longrightarrow>
             ns ! i \<in> dom grads \<or> (\<exists>j < i. ns ! i \<in> set (inputs (heap s ! (ns ! j))))"
    proof (intro allI impI)
      fix i assume i: "i < length ns" and o: "op (heap s ! (ns ! i)) \<noteq> None"
      from Cons.prems(2) [rule_format, of "Suc i"] i o
      have "ns ! i \<in> dom grads \<or>
            (\<exists>j < Suc i. ns ! i \<in> set (inputs (heap s ! ((n # ns) ! j))))" by simp
      then show "ns ! i \<in> dom grads \<or> (\<exists>j < i. ns ! i \<in> set (inputs (heap s ! (ns ! j))))"
      proof
        assume "ns ! i \<in> dom grads"
        then show ?thesis ..
      next
        assume "\<exists>j < Suc i. ns ! i \<in> set (inputs (heap s ! ((n # ns) ! j)))"
        then obtain j where j: "j < Suc i" "ns ! i \<in> set (inputs (heap s ! ((n # ns) ! j)))"
          by blast
        with empty obtain j' where "j = Suc j'" by (cases j) auto
        with j show ?thesis by auto
      qed
    qed
    from Cons.IH [OF 1 2] None show ?thesis by simp
  next
    case (Some f)
    from Cons.prems(2) [rule_format, of 0] Some obtain g where g: "grads n = Some g" by auto
    from ar Some have l2: "length (inputs (heap s ! n)) = 2" by simp
    from backward_binary [OF n l2] obtain r1 r2 s1
      where b: "backward f g n s = (Inr [r1, r2], s1)" by blast
    have e1: "extends s s1" using b by (rule backward_extends)
    obtain g1 s2
      where a: "accumulate (zip (inputs (heap s1 ! n)) [r1, r2]) grads s1 = (g1, s2)" by force
    have e2: "extends s1 s2" using a by (rule accumulate_extends)
    have e: "extends s s2" using e1 e2 by (rule extends_trans)
    have same1: "inputs (heap s1 ! n) = inputs (heap s ! n)"
      using extends_nth [OF e1 n] by simp
    have "fst ` set (zip (inputs (heap s1 ! n)) [r1, r2]) = set (inputs (heap s ! n))"
      using l2 same1 by (metis length_Cons list.size(3) map_fst_zip numeral_2_eq_2 set_map)
    with accumulate_dom [OF a] have d: "dom g1 = dom grads \<union> set (inputs (heap s ! n))" by simp
    have same: "heap s2 ! m = heap s ! m" if "m < length (heap s)" for m
      using extends_nth [OF e that] .
    have 1: "\<forall>m \<in> set ns. m < length (heap s2) \<and>
             length (inputs (heap s2 ! m)) = (if op (heap s2 ! m) = None then 0 else 2)"
    proof
      fix m assume "m \<in> set ns"
      with Cons.prems(1) have m: "m < length (heap s)"
        "length (inputs (heap s ! m)) = (if op (heap s ! m) = None then 0 else 2)" by simp_all
      with same [OF m(1)] extends_length [OF e]
      show "m < length (heap s2) \<and>
             length (inputs (heap s2 ! m)) = (if op (heap s2 ! m) = None then 0 else 2)" by simp
    qed
    have 2: "\<forall>i < length ns. op (heap s2 ! (ns ! i)) \<noteq> None \<longrightarrow>
             ns ! i \<in> dom g1 \<or> (\<exists>j < i. ns ! i \<in> set (inputs (heap s2 ! (ns ! j))))"
    proof (intro allI impI)
      fix i assume i: "i < length ns" and o: "op (heap s2 ! (ns ! i)) \<noteq> None"
      have mi: "ns ! i < length (heap s)" using Cons.prems(1) i by simp
      from o same [OF mi] have o': "op (heap s ! (ns ! i)) \<noteq> None" by simp
      from Cons.prems(2) [rule_format, of "Suc i"] i o'
      have "ns ! i \<in> dom grads \<or>
            (\<exists>j < Suc i. ns ! i \<in> set (inputs (heap s ! ((n # ns) ! j))))" by simp
      then show "ns ! i \<in> dom g1 \<or> (\<exists>j < i. ns ! i \<in> set (inputs (heap s2 ! (ns ! j))))"
      proof
        assume "ns ! i \<in> dom grads"
        with d show ?thesis by blast
      next
        assume "\<exists>j < Suc i. ns ! i \<in> set (inputs (heap s ! ((n # ns) ! j)))"
        then obtain j where j: "j < Suc i" "ns ! i \<in> set (inputs (heap s ! ((n # ns) ! j)))"
          by blast
        show ?thesis
        proof (cases j)
          case 0
          with j d show ?thesis by simp
        next
          case (Suc j')
          with j i have j': "j' < i" "ns ! j' < length (heap s)"
            using Cons.prems(1) by simp_all
          from j Suc same [OF j'(2)] have "ns ! i \<in> set (inputs (heap s2 ! (ns ! j')))" by simp
          with j'(1) show ?thesis by blast
        qed
      qed
    qed
    from Cons.IH [OF 1 2] obtain grads' s' where "walk ns g1 s2 = (Inr grads', s')" by blast
    with Some g b a show ?thesis by simp
  qed
qed

lemma walk_other:
  assumes "\<forall>n \<in> set ns. n < length (heap s) \<and> x \<notin> set (inputs (heap s ! n))"
    and "walk ns grads s = (Inr grads', s')"
  shows "grads' x = grads x"
  using assms
proof (induction ns arbitrary: grads s)
  case Nil
  then show ?case by simp
next
  case (Cons n ns)
  from Cons.prems(1) have n: "n < length (heap s)" "x \<notin> set (inputs (heap s ! n))" by simp_all
  show ?case
  proof (cases "op (heap s ! n)")
    case None
    with Cons.prems have "walk ns grads s = (Inr grads', s')" by simp
    moreover from Cons.prems(1)
    have "\<forall>n \<in> set ns. n < length (heap s) \<and> x \<notin> set (inputs (heap s ! n))" by simp
    ultimately show ?thesis by (rule Cons.IH [rotated])
  next
    case (Some f)
    note f = this
    show ?thesis
    proof (cases "grads n")
      case None
      with Cons.prems(2) f show ?thesis by simp
    next
      case (Some g)
      obtain rb s1 where b: "backward f g n s = (rb, s1)" by force
      have e1: "extends s s1" using b by (rule backward_extends)
      show ?thesis
      proof (cases rb)
        case (Inl err)
        with Cons.prems(2) f Some b show ?thesis by simp
      next
        case (Inr in_grads)
        obtain g1 s2
          where a: "accumulate (zip (inputs (heap s1 ! n)) in_grads) grads s1 = (g1, s2)" by force
        have e2: "extends s1 s2" using a by (rule accumulate_extends)
        have e: "extends s s2" using e1 e2 by (rule extends_trans)
        from Cons.prems(2) f Some b Inr a have w: "walk ns g1 s2 = (Inr grads', s')" by simp
        have "inputs (heap s1 ! n) = inputs (heap s ! n)" using extends_nth [OF e1 n(1)] by simp
        with n(2) have "x \<notin> fst ` set (zip (inputs (heap s1 ! n)) in_grads)"
          by (auto dest: set_zip_leftD)
        with accumulate_other [OF a] have g1: "g1 x = grads x" by simp
        have "\<forall>n \<in> set ns. n < length (heap s2) \<and> x \<notin> set (inputs (heap s2 ! n))"
        proof
          fix m assume "m \<in> set ns"
          with Cons.prems(1) have m: "m < length (heap s)" "x \<notin> set (inputs (heap s ! m))"
            by simp_all
          with extends_nth [OF e m(1)] extends_length [OF e]
          show "m < length (heap s2) \<and> x \<notin> set (inputs (heap s2 ! m))" by simp
        qed
        from Cons.IH [OF this w] g1 show ?thesis by simp
      qed
    qed
  qed
qed

lemma collect_result:
  "collect wrt grads s = (rs, s') \<Longrightarrow>
   length rs = length wrt \<and> (\<forall>i < length wrt. \<forall>g. grads (wrt ! i) = Some g \<longrightarrow> rs ! i = g)"
proof (induction wrt arbitrary: s rs s')
  case Nil
  then show ?case by simp
next
  case (Cons n ns)
  obtain z s1 where z: "Node_init [] None (Some 0) s = (z, s1)" by force
  obtain rs1 s2 where c: "collect ns grads s1 = (rs1, s2)" by force
  from Cons.prems z c
  have rs: "rs = (case grads n of Some g \<Rightarrow> g | None \<Rightarrow> z) # rs1" by auto
  from Cons.IH [OF c] have ih: "length rs1 = length ns"
    "\<forall>i < length ns. \<forall>g. grads (ns ! i) = Some g \<longrightarrow> rs1 ! i = g" by simp_all
  show ?case
  proof (intro conjI allI impI)
    show "length rs = length (n # ns)" using rs ih(1) by simp
  next
    fix i g assume i: "i < length (n # ns)" and g: "grads ((n # ns) ! i) = Some g"
    show "rs ! i = g"
    proof (cases i)
      case 0
      with g rs show ?thesis by simp
    next
      case (Suc j)
      with i g ih(2) rs show ?thesis by simp
    qed
  qed
qed

lemma created_in_order_closed: "created_in_order h \<Longrightarrow> closed h"
  unfolding closed_nth created_in_order_def by (meson less_trans)

lemma created_in_order_acyclic:
  assumes "created_in_order h"
  shows "acyclic (edges h)"
proof -
  have "edges h \<subseteq> less_than" using assms by (auto simp: edges_def created_in_order_def)
  with wf_less_than have "wf (edges h)" by (rule wf_subset)
  then show ?thesis by (rule wf_acyclic)
qed

lemma created_in_order_Nil: "created_in_order []"
  by (simp add: created_in_order_def)

lemma created_in_order_snoc:
  "created_in_order (h @ [nd]) = (created_in_order h \<and> (\<forall>i \<in> set (inputs nd). i < length h))"
  by (auto simp: created_in_order_def nth_append less_Suc_eq)

lemma edges_leaf: "edges (h @ [\<lparr>inputs = [], op = f, val = v\<rparr>]) = edges h"
  by (auto simp: edges_def nth_append less_Suc_eq)

lemma reach_leaf: "reach (h @ [\<lparr>inputs = [], op = f, val = v\<rparr>]) n = reach h n"
  by (simp add: reach_def edges_leaf)

lemma closed_leaf: "closed h \<Longrightarrow> closed (h @ [\<lparr>inputs = [], op = f, val = v\<rparr>])"
  by (auto simp: closed_def less_Suc_eq)

lemma binary_leaf: "binary h \<Longrightarrow> binary (h @ [\<lparr>inputs = [], op = None, val = v\<rparr>])"
  by (auto simp: binary_def)

lemma topo_sorted_leaf:
  assumes "\<forall>n \<in> set topo. n < length h"
  shows "topo_sorted (h @ [nd]) topo = topo_sorted h topo"
  using assms by (simp add: topo_sorted_def nth_append)

lemma rev_topo_covering:
  assumes d: "distinct topo" and r: "set topo = reach h out" and t: "topo_sorted h topo"
    and i: "i < length topo"
  shows "rev topo ! i = out \<or> (\<exists>j < i. rev topo ! i \<in> set (inputs (h ! (rev topo ! j))))"
proof (cases "rev topo ! i = out")
  case True
  then show ?thesis ..
next
  case False
  let ?L = "length topo"
  let ?m = "rev topo ! i"
  have mi: "?m = topo ! (?L - Suc i)" using i by (simp add: rev_nth)
  have "?m \<in> set topo" using i mi by simp
  with r have "(?m, out) \<in> (edges h)\<^sup>*" by (simp add: reach_def)
  then obtain c where c: "(?m, c) \<in> edges h" "(c, out) \<in> (edges h)\<^sup>*"
    using False by (auto elim: converse_rtranclE)
  from c(2) r have "c \<in> set topo" by (simp add: reach_def)
  then obtain jc where jc: "jc < ?L" "topo ! jc = c" by (auto simp: in_set_conv_nth)
  from c(1) have "?m \<in> set (inputs (h ! c))" by (simp add: edges_def)
  with t jc have "?m \<in> set (take jc topo)" by (auto simp: topo_sorted_def)
  then obtain jm where jm: "jm < jc" "topo ! jm = ?m"
    using jc(1) by (auto simp: in_set_conv_nth)
  from jm jc(1) d mi i have "jm = ?L - Suc i"
    by (simp add: nth_eq_iff_index_eq)
  with jm(1) jc(1) i have j: "?L - Suc jc < i" "?L - Suc jc < ?L" by arith+
  have "rev topo ! (?L - Suc jc) = topo ! (?L - Suc (?L - Suc jc))" using j(2) by (simp add: rev_nth)
  also have "?L - Suc (?L - Suc jc) = jc" using jc(1) by arith
  finally have "rev topo ! (?L - Suc jc) = c" using jc(2) by simp
  with \<open>?m \<in> set (inputs (h ! c))\<close> j(1) show ?thesis by blast
qed

lemma build_topo_inputs_sound_step:
  assumes step: "\<And>n st st'. n < length h \<Longrightarrow> build_topo k h n st = Some st' \<Longrightarrow>
                   set (snd st') \<subseteq> set (snd st) \<union> reach h n"
    and "\<forall>i \<in> set ins. i < length h" and "build_topo_inputs k h ins st = Some st'"
  shows "set (snd st') \<subseteq> set (snd st) \<union> (\<Union>i \<in> set ins. reach h i)"
  using assms(2-)
proof (induction ins arbitrary: st)
  case Nil
  then show ?case by simp
next
  case (Cons i ins)
  from Cons.prems(2) obtain st1 where 1: "build_topo k h i st = Some st1"
    and 2: "build_topo_inputs k h ins st1 = Some st'"
    by (auto split: option.splits)
  from Cons.prems(1) have "i < length h" "\<forall>i \<in> set ins. i < length h" by simp_all
  with step [OF _ 1] Cons.IH [OF _ 2] show ?case by auto
qed

lemma build_topo_sound:
  "closed h \<Longrightarrow> n < length h \<Longrightarrow> build_topo k h n st = Some st' \<Longrightarrow>
   set (snd st') \<subseteq> set (snd st) \<union> reach h n"
proof (induction k arbitrary: n st st')
  case 0
  then show ?case by (cases st) simp
next
  case (Suc k)
  obtain vis topo where st: "st = (vis, topo)" by force
  show ?case
  proof (cases "n \<in> vis")
    case True
    with Suc.prems(3) st show ?thesis by auto
  next
    case False
    with Suc.prems(3) st obtain vis1 topo1
      where 1: "build_topo_inputs k h (inputs (h ! n)) (insert n vis, topo) = Some (vis1, topo1)"
        and 2: "st' = (vis1, topo1 @ [n])"
      by (auto split: option.splits)
    have b: "\<forall>i \<in> set (inputs (h ! n)). i < length h"
      using Suc.prems(1,2) by (simp add: closed_nth)
    have "set (snd (vis1, topo1)) \<subseteq> set (snd (insert n vis, topo))
            \<union> (\<Union>i \<in> set (inputs (h ! n)). reach h i)"
      using Suc.IH [OF Suc.prems(1)] b 1 by (rule build_topo_inputs_sound_step)
    with 2 st reach_unfold [OF Suc.prems(2)] show ?thesis by auto
  qed
qed

lemma reach_arity:
  assumes "closed h" and "binary h" and "out < length h" and "n \<in> reach h out"
  shows "n < length h \<and> length (inputs (h ! n)) = (if op (h ! n) = None then 0 else 2)"
proof -
  have "n < length h" using assms(1,3,4) by (rule reach_bound)
  with assms(2) show ?thesis by (simp add: binary_def)
qed

lemma gradients_returns:
  assumes c: "closed (heap s)" and a: "acyclic (edges (heap s))" and b: "binary (heap s)"
    and out: "out < length (heap s)"
  shows "\<exists>k. \<forall>fuel \<ge> k. \<exists>rs s'. gradients fuel s out wrt = (Inr rs, s')"
proof -
  let ?seed = "\<lparr>inputs = [], op = None, val = Some (1::real)\<rparr>"
  let ?h1 = "heap s @ [?seed]"
  let ?s1 = "s\<lparr>heap := ?h1\<rparr>"
  have i: "Node_init [] None (Some 1) s = (length (heap s), ?s1)" by (simp add: Node_init_def)
  have c1: "closed ?h1" using c by (rule closed_leaf)
  have a1: "acyclic (edges ?h1)" using a by (simp add: edges_leaf)
  have b1: "binary ?h1" using b by (rule binary_leaf)
  have o1: "out < length ?h1" using out by simp
  from build_topo_correct [OF c1 a1 o1] obtain k where k: "\<forall>fuel \<ge> k. \<exists>topo.
           build_topo fuel ?h1 out ({}, []) = Some (set topo, topo) \<and>
           distinct topo \<and> set topo = reach ?h1 out \<and> topo_sorted ?h1 topo" by blast
  have "\<exists>rs s'. gradients fuel s out wrt = (Inr rs, s')" if "k \<le> fuel" for fuel
  proof -
    from k that obtain topo where t: "build_topo fuel ?h1 out ({}, []) = Some (set topo, topo)"
      "distinct topo" "set topo = reach ?h1 out" "topo_sorted ?h1 topo" by blast
    have 1: "\<forall>n \<in> set (rev topo). n < length (heap ?s1) \<and>
             length (inputs (heap ?s1 ! n)) = (if op (heap ?s1 ! n) = None then 0 else 2)"
      using reach_arity [OF c1 b1 o1] t(3) by simp
    have 2: "\<forall>i < length (rev topo). op (heap ?s1 ! (rev topo ! i)) \<noteq> None \<longrightarrow>
             rev topo ! i \<in> dom (Map.empty(out \<mapsto> length (heap s))) \<or>
             (\<exists>j < i. rev topo ! i \<in> set (inputs (heap ?s1 ! (rev topo ! j))))"
      using rev_topo_covering [OF t(2,3,4)] by simp
    from walk_returns [OF 1 2] obtain grads s2
      where w: "walk (rev topo) (Map.empty(out \<mapsto> length (heap s))) ?s1 = (Inr grads, s2)"
      by blast
    obtain rs s3 where "collect wrt grads s2 = (rs, s3)" by force
    with i t(1) w have "gradients fuel s out wrt = (Inr rs, s3)" by (simp add: gradients_def)
    then show ?thesis by blast
  qed
  then show ?thesis by blast
qed

lemma gradients_seed:
  assumes c: "closed (heap s)" and a: "acyclic (edges (heap s))" and out: "out < length (heap s)"
    and g: "gradients fuel s out wrt = (Inr rs, s')"
  shows "length rs = length wrt \<and>
         (\<forall>i < length wrt. wrt ! i = out \<longrightarrow> rs ! i = length (heap s)) \<and>
         heap s' ! length (heap s) = \<lparr>inputs = [], op = None, val = Some 1\<rparr>"
proof -
  let ?seed = "\<lparr>inputs = [], op = None, val = Some (1::real)\<rparr>"
  let ?h1 = "heap s @ [?seed]"
  let ?s1 = "s\<lparr>heap := ?h1\<rparr>"
  have i: "Node_init [] None (Some 1) s = (length (heap s), ?s1)" by (simp add: Node_init_def)
  have c1: "closed ?h1" using c by (rule closed_leaf)
  have a1: "acyclic (edges ?h1)" using a by (simp add: edges_leaf)
  have o1: "out < length ?h1" using out by simp
  from g i obtain vis topo grads s2
    where t: "build_topo fuel ?h1 out ({}, []) = Some (vis, topo)"
      and w: "walk (rev topo) (Map.empty(out \<mapsto> length (heap s))) ?s1 = (Inr grads, s2)"
      and col: "collect wrt grads s2 = (rs, s')"
    by (auto simp: gradients_def split: option.splits sum.splits prod.splits)
  from build_topo_sound [OF c1 o1 t] have sub: "set topo \<subseteq> reach ?h1 out" by simp
  have "\<forall>n \<in> set (rev topo). n < length (heap ?s1) \<and> out \<notin> set (inputs (heap ?s1 ! n))"
  proof
    fix n assume "n \<in> set (rev topo)"
    with sub have n: "n \<in> reach ?h1 out" by auto
    with c1 o1 have l: "n < length ?h1" by (rule reach_bound)
    have "out \<notin> set (inputs (?h1 ! n))"
    proof
      assume "out \<in> set (inputs (?h1 ! n))"
      from acyclic_not_reach [OF a1 l this] n show False by simp
    qed
    with l show "n < length (heap ?s1) \<and> out \<notin> set (inputs (heap ?s1 ! n))" by simp
  qed
  from walk_other [OF this w] have go: "grads out = Some (length (heap s))" by simp
  from collect_result [OF col] go have 1: "length rs = length wrt"
    "\<forall>i < length wrt. wrt ! i = out \<longrightarrow> rs ! i = length (heap s)" by auto
  have "extends ?s1 s2" using w by (rule walk_extends)
  moreover have "extends s2 s'" using col by (rule collect_extends)
  ultimately have "extends ?s1 s'" by (rule extends_trans)
  from extends_nth [OF this, of "length (heap s)"]
  have "heap s' ! length (heap s) = ?seed" by simp
  with 1 show ?thesis by simp
qed

lemma example_store_order: "created_in_order (heap (snd (snd (snd example_graph))))"
  by (simp add: example_graph_eq created_in_order_def less_Suc_eq eval_nat_numeral)

lemma example_store_binary: "binary (heap (snd (snd (snd example_graph))))"
  by (simp add: example_graph_eq binary_def)

text \<open>
  Claim C5, as the code has it.  In a store without dangling references, for an
  acyclic graph and an allocated output node, with a large enough recursion limit:
  \<open>build_topo\<close>, as \<open>gradients\<close> calls it, returns a list holding every node
  reachable from the output exactly once, every node after all its inputs, and the
  visited set is the set of these nodes.  When moreover the arity invariant holds
  (operator nodes have two inputs, the others none), the reverse walk finds an entry
  for every operator node it processes: \<open>gradients\<close> returns a result, so no lookup
  \<open>grads[node]\<close> fails.
\<close>

theorem topological_walk:
  assumes "closed (heap s)" and "acyclic (edges (heap s))" and "output_node < length (heap s)"
  shows "\<exists>k. \<forall>fuel \<ge> k.
           (\<exists>topo. build_topo fuel (heap (snd (Node_init [] None (Some 1) s))) output_node ({}, [])
                     = Some (set topo, topo)
                  \<and> distinct topo \<and> set topo = reach (heap s) output_node
                  \<and> topo_sorted (heap s) topo)
         \<and> (binary (heap s) \<longrightarrow>
              (\<exists>rs s'. gradients fuel s output_node input_nodes = (Inr rs, s')))"
proof -
  let ?h1 = "heap s @ [\<lparr>inputs = [], op = None, val = Some (1::real)\<rparr>]"
  have h1: "heap (snd (Node_init [] None (Some 1) s)) = ?h1" by (simp add: Node_init_def)
  have c1: "closed ?h1" using assms(1) by (rule closed_leaf)
  have a1: "acyclic (edges ?h1)" using assms(2) by (simp add: edges_leaf)
  have o1: "output_node < length ?h1" using assms(3) by simp
  from build_topo_correct [OF c1 a1 o1] obtain k1 where k1: "\<forall>fuel \<ge> k1. \<exists>topo.
           build_topo fuel ?h1 output_node ({}, []) = Some (set topo, topo) \<and>
           distinct topo \<and> set topo = reach ?h1 output_node \<and> topo_sorted ?h1 topo" by blast
  have t: "\<exists>topo. build_topo fuel ?h1 output_node ({}, []) = Some (set topo, topo)
                  \<and> distinct topo \<and> set topo = reach (heap s) output_node
                  \<and> topo_sorted (heap s) topo" if "k1 \<le> fuel" for fuel
  proof -
    from k1 that obtain topo where t: "build_topo fuel ?h1 output_node ({}, []) = Some (set topo, topo)"
      "distinct topo" "set topo = reach ?h1 output_node" "topo_sorted ?h1 topo" by blast
    from t(3) have r: "set topo = reach (heap s) output_node" by (simp add: reach_leaf)
    then have "\<forall>n \<in> set topo. n < length (heap s)"
      using reach_bound [OF assms(1,3)] by blast
    with t(4) have "topo_sorted (heap s) topo" by (simp add: topo_sorted_leaf)
    with t(1,2) r show ?thesis by blast
  qed
  show ?thesis
  proof (cases "binary (heap s)")
    case False
    with t show ?thesis unfolding h1 by blast
  next
    case True
    from gradients_returns [OF assms(1,2) True assms(3), of input_nodes] obtain k2
      where k2: "\<forall>fuel \<ge> k2. \<exists>rs s'. gradients fuel s output_node input_nodes = (Inr rs, s')"
      by blast
    have "\<forall>fuel \<ge> max k1 k2.
           (\<exists>topo. build_topo fuel ?h1 output_node ({}, []) = Some (set topo, topo)
                  \<and> distinct topo \<and> set topo = reach (heap s) output_node
                  \<and> topo_sorted (heap s) topo)
         \<and> (binary (heap s) \<longrightarrow>
              (\<exists>rs s'. gradients fuel s output_node input_nodes = (Inr rs, s')))"
      using t k2 by simp
    then show ?thesis unfolding h1 by blast
  qed
qed

text \<open>
  The example graph with root \<open>c\<close> (address 6): the order is \<open>a, a*a, b, b*b,
  a*a - b*b, a/b, c\<close>.
\<close>

theorem topological_walk_witness:
  "closed (heap (snd (snd (snd example_graph))))
   \<and> acyclic (edges (heap (snd (snd (snd example_graph)))))
   \<and> (6::nat) < length (heap (snd (snd (snd example_graph))))
   \<and> binary (heap (snd (snd (snd example_graph))))
   \<and> (\<exists>k. \<forall>fuel \<ge> k.
         (\<exists>topo. build_topo fuel
                    (heap (snd (Node_init [] None (Some 1) (snd (snd (snd example_graph))))))
                    6 ({}, []) = Some (set topo, topo)
                \<and> distinct topo \<and> set topo = reach (heap (snd (snd (snd example_graph)))) 6
                \<and> topo_sorted (heap (snd (snd (snd example_graph)))) topo)
         \<and> (\<exists>rs s'. gradients fuel (snd (snd (snd example_graph))) 6 [0, 1] = (Inr rs, s')))
   \<and> map_option snd (build_topo 4
        (heap (snd (Node_init [] None (Some 1) (snd (snd (snd example_graph)))))) 6 ({}, []))
       = Some [0, 2, 1, 3, 4, 5, 6]
   \<and> fst (gradients 4 (snd (snd (snd example_graph))) 6 [0, 1]) = Inr [25, 21]"
proof -
  let ?s = "snd (snd (snd example_graph))"
  have c: "closed (heap ?s)" using example_store_order by (rule created_in_order_closed)
  have a: "acyclic (edges (heap ?s))" using example_store_order by (rule created_in_order_acyclic)
  have l: "(6::nat) < length (heap ?s)" by (simp add: example_graph_eq)
  have b: "binary (heap ?s)" by (rule example_store_binary)
  have t: "map_option snd (build_topo 4 (heap (snd (Node_init [] None (Some 1) ?s))) 6 ({}, []))
       = Some [0, 2, 1, 3, 4, 5, 6]"
    by (simp add: example_graph_eq Node_init_def eval_nat_numeral)
  have g: "fst (gradients 4 ?s 6 [0, 1]) = Inr [25, 21]"
    by (simp add: example_graph_eq gradients_def alloc_defs eval_nat_numeral getitem_def)
  from topological_walk [OF c a l, of "[0, 1]"] b c a l t g show ?thesis by simp
qed

text \<open>
  Against claim C5 as stated, for every acyclic graph: in the acyclic graph
  \<open>Node([a, b, t], addOp)\<close> with \<open>t = a * b\<close>, Add's backward rule gives two
  contributions, \<open>zip\<close> drops the third input \<open>t\<close>, and when the walk comes to
  \<open>t\<close>, which has an operator, \<open>grads[t]\<close> raises \<open>KeyError\<close>.
\<close>

theorem ternary_sum_counterexample:
  "(case ternary_sum of (out, s) \<Rightarrow>
      closed (heap s) \<and> acyclic (edges (heap s)) \<and> out < length (heap s)
      \<and> (\<forall>k. fst (gradients (3 + k) s out [0]) = Inl KeyError))"
proof -
  have s: "ternary_sum = (3,
     \<lparr>heap = [\<lparr>inputs = [], op = None, val = Some 2\<rparr>,
              \<lparr>inputs = [], op = None, val = Some 3\<rparr>,
              \<lparr>inputs = [0, 1], op = Some MulOp, val = None\<rparr>,
              \<lparr>inputs = [0, 1, 2], op = Some AddOp, val = None\<rparr>],
      forward_calls = 0\<rparr>)"
    by (simp add: ternary_sum_def empty_state_def alloc_defs)
  have o: "created_in_order (heap (snd ternary_sum))"
    by (simp add: s created_in_order_def less_Suc_eq eval_nat_numeral)
  have k: "fst (gradients (3 + k) (snd ternary_sum) 3 [0]) = Inl KeyError" for k
    by (simp add: s gradients_def alloc_defs eval_nat_numeral getitem_def)
  from created_in_order_closed [OF o] created_in_order_acyclic [OF o] k
  show ?thesis by (simp add: s)
qed

text \<open>
  Claim C7.  In a store without dangling references, for an acyclic graph and an
  allocated output node: whenever \<open>gradients\<close> returns, the result has one entry per
  requested node, and at every position where the output node itself was requested
  the entry is the seed, the leaf of value \<open>1\<close> allocated first by the call; its
  \<open>eval\<close> returns exactly \<open>1\<close>.  Under the arity invariant, \<open>gradients\<close> does
  return, for every large enough recursion limit.
\<close>

theorem self_gradient:
  assumes "closed (heap s)" and "acyclic (edges (heap s))" and "output_node < length (heap s)"
  shows "(\<forall>fuel rs s'. gradients fuel s output_node input_nodes = (Inr rs, s') \<longrightarrow>
            length rs = length input_nodes \<and>
            (\<forall>i < length input_nodes. input_nodes ! i = output_node \<longrightarrow>
               rs ! i = length (heap s) \<and>
               heap s' ! (rs ! i) = \<lparr>inputs = [], op = None, val = Some 1\<rparr> \<and>
               (\<forall>j. eval (Suc j) s' (rs ! i) = (Inr 1, s'))))
       \<and> (binary (heap s) \<longrightarrow>
            (\<exists>k. \<forall>fuel \<ge> k. \<exists>rs s'. gradients fuel s output_node input_nodes = (Inr rs, s')))"
proof (intro conjI allI impI)
  fix fuel rs s' assume g: "gradients fuel s output_node input_nodes = (Inr rs, s')"
  from gradients_seed [OF assms g] show "length rs = length input_nodes" by simp
next
  fix fuel rs s' i
  assume g: "gradients fuel s output_node input_nodes = (Inr rs, s')"
    and i: "i < length input_nodes" "input_nodes ! i = output_node"
  from gradients_seed [OF assms g] i
  show r: "rs ! i = length (heap s)"
    and h: "heap s' ! (rs ! i) = \<lparr>inputs = [], op = None, val = Some 1\<rparr>" by simp_all
  fix j
  from h show "eval (Suc j) s' (rs ! i) = (Inr 1, s')" by simp
next
  assume "binary (heap s)"
  with assms show "\<exists>k. \<forall>fuel \<ge> k. \<exists>rs s'. gradients fuel s output_node input_nodes = (Inr rs, s')"
    by (blast intro: gradients_returns)
qed

text \<open>The example graph, with \<open>gradients(c, [a, c])\<close>.\<close>

theorem self_gradient_witness:
  "closed (heap (snd (snd (snd example_graph))))
   \<and> acyclic (edges (heap (snd (snd (snd example_graph)))))
   \<and> (6::nat) < length (heap (snd (snd (snd example_graph))))
   \<and> binary (heap (snd (snd (snd example_graph))))
   \<and> (\<exists>rs s'. gradients 4 (snd (snd (snd example_graph))) 6 [0, 6] = (Inr rs, s')
        \<and> rs = [25, 7] \<and> eval (Suc 0) s' (rs ! 1) = (Inr 1, s'))
   \<and> (\<exists>k. \<forall>fuel \<ge> k. \<exists>rs s'. gradients fuel (snd (snd (snd example_graph))) 6 [0, 6] = (Inr rs, s'))"
proof -
  let ?s = "snd (snd (snd example_graph))"
  have c: "closed (heap ?s)" using example_store_order by (rule created_in_order_closed)
  have a: "acyclic (edges (heap ?s))" using example_store_order by (rule created_in_order_acyclic)
  have l: "(6::nat) < length (heap ?s)" by (simp add: example_graph_eq)
  have l7: "length (heap ?s) = 7" by (simp add: example_graph_eq)
  have b: "binary (heap ?s)" by (rule example_store_binary)
  have "fst (gradients 4 ?s 6 [0, 6]) = Inr [25, 7]"
    by (simp add: example_graph_eq gradients_def alloc_defs eval_nat_numeral getitem_def)
  then obtain s' where g: "gradients 4 ?s 6 [0, 6] = (Inr [25, 7], s')"
    by (metis prod.collapse)
  note sg = self_gradient [OF c a l, of "[0, 6]"]
  from sg g have "eval (Suc 0) s' ([25, 7] ! 1) = (Inr 1, s')"
    by (metis One_nat_def length_Cons lessI list.size(3) nth_Cons_0 nth_Cons_Suc)
  with g have 1: "\<exists>rs s'. gradients 4 ?s 6 [0, 6] = (Inr rs, s')
        \<and> rs = [25, 7] \<and> eval (Suc 0) s' (rs ! 1) = (Inr 1, s')"
    by blast
  from sg b have 2: "\<exists>k. \<forall>fuel \<ge> k. \<exists>rs s'. gradients fuel ?s 6 [0, 6] = (Inr rs, s')" by blast
  from c a l b 1 2 show ?thesis by blast
qed

section \<open>Accumulation at a shared node\<close>

lemma eval_Add_node:
  assumes r: "r < length (heap s)"
    and nd: "heap s ! r = \<lparr>inputs = [g1, g2], op = Some AddOp, val = None\<rparr>"
    and e1: "eval (Suc k) s g1 = (Inr v1, s1)"
    and e2: "eval (Suc k) s1 g2 = (Inr v2, s2)"
  shows "fst (eval (Suc (Suc k)) s r) = Inr (v1 + v2)"
proof -
  have "memoizes s s1" using eval_memoizes [of s "Suc k" g1] e1 by simp
  moreover have "memoizes s1 s2" using eval_memoizes [of s1 "Suc k" g2] e2 by simp
  ultimately have "memoizes s s2" by (rule memoizes_trans)
  from memoizes_op [OF this r] nd have o: "op (heap s2 ! r) = Some AddOp" by simp
  have "eval_inputs (Suc k) s [g1, g2] = (Inr [v1, v2], s2)"
    using e1 e2 by (simp del: eval.simps)
  with nd o show ?thesis
    by (simp add: getitem_def del: eval.simps(2)) (simp add: nd o getitem_def)
qed

lemma node_at_prefix: "prefix h h' \<Longrightarrow> node_at h k nd \<Longrightarrow> node_at h' k nd"
  by (auto simp: node_at_def prefix_def nth_append)

lemma adds_prefix: "prefix h h' \<Longrightarrow> adds h init ks res \<Longrightarrow> adds h' init ks res"
proof (induction h init ks res rule: adds.induct)
  case (1 h init res)
  then show ?case by simp
next
  case (2 h k ks res)
  then show ?case by simp
next
  case (3 h r0 k ks res)
  then show ?case by (auto intro: node_at_prefix)
qed

lemma adds_append:
  "adds h init ks1 mid \<Longrightarrow> adds h mid ks2 res \<Longrightarrow> adds h init (ks1 @ ks2) res"
proof (induction h init ks1 mid rule: adds.induct)
  case (1 h init res)
  then show ?case by simp
next
  case (2 h k ks res)
  then show ?case by simp
next
  case (3 h r0 k ks res)
  then show ?case by auto
qed

lemma accumulate_adds:
  "accumulate ps G s = (G1, s1) \<Longrightarrow>
   adds (heap s1) (G x) (map snd (filter (\<lambda>q. fst q = x) ps)) (G1 x)"
proof (induction ps arbitrary: G s)
  case Nil
  then show ?case by simp
next
  case (Cons q ps)
  obtain inp in_grad where q: "q = (inp, in_grad)" by force
  show ?case
  proof (cases "G inp")
    case None
    with Cons.prems q have a: "accumulate ps (G(inp \<mapsto> in_grad)) s = (G1, s1)" by simp
    from Cons.IH [OF a] None q show ?thesis by (cases "inp = x") simp_all
  next
    case (Some r0)
    obtain r s0 where n: "Node_add r0 in_grad s = (r, s0)" by force
    with Cons.prems q Some have a: "accumulate ps (G(inp \<mapsto> r)) s0 = (G1, s1)" by simp
    from n have r: "r = length (heap s)"
      and s0: "heap s0 = heap s @ [\<lparr>inputs = [r0, in_grad], op = Some AddOp, val = None\<rparr>]"
      by (auto simp: alloc_defs)
    have e: "extends s0 s1" using a by (rule accumulate_extends)
    have "node_at (heap s0) r \<lparr>inputs = [r0, in_grad], op = Some AddOp, val = None\<rparr>"
      by (simp add: node_at_def r s0)
    with e have na: "node_at (heap s1) r \<lparr>inputs = [r0, in_grad], op = Some AddOp, val = None\<rparr>"
      by (auto simp: extends_def intro: node_at_prefix)
    note ih = Cons.IH [OF a]
    show ?thesis
    proof (cases "inp = x")
      case True
      with ih na Some q show ?thesis by auto
    next
      case False
      with ih q show ?thesis by simp
    qed
  qed
qed

lemma backward_length: "backward f g n s = (Inr rs, s1) \<Longrightarrow> length rs = 2"
  by (cases f) (auto simp: alloc_defs split: sum.splits prod.splits)

lemma zip_uses:
  "map snd (filter (\<lambda>q. fst q = x) (zip ins rs))
     = map ((!) rs) (filter (\<lambda>p. ins ! p = x) [0..<min (length ins) (length rs)])"
proof -
  have "zip ins rs = map (\<lambda>p. (ins ! p, rs ! p)) [0..<min (length ins) (length rs)]"
    by (rule nth_equalityI) simp_all
  then show ?thesis by (simp add: filter_map comp_def)
qed


lemma walk_contributions:
  assumes "extends s0 s" and "\<forall>n \<in> set ns. n < length (heap s0)"
    and "\<forall>i j. i \<le> j \<and> j < length ns \<longrightarrow> ns ! i \<notin> set (inputs (heap s0 ! (ns ! j)))"
    and "walk ns G s = (Inr G', s')"
  shows "\<exists>ks. adds (heap s') (G x) ks (G' x) \<and>
              list_all2 (\<lambda>k e. \<exists>g. G' (fst e) = Some g \<and> contribution s0 s' (fst e) g (snd e) k)
                ks (walk_uses (heap s0) ns x)"
  using assms
proof (induction ns arbitrary: G s)
  case Nil
  then show ?case by (simp add: walk_uses_def)
next
  case (Cons n ns)
  from Cons.prems(2) have n0: "n < length (heap s0)" and ns0: "\<forall>n \<in> set ns. n < length (heap s0)"
    by simp_all
  have same: "heap t ! m = heap s0 ! m" if "extends s0 t" "m < length (heap s0)" for t m
    using extends_nth [OF that] .
  have ord: "\<forall>i j. i \<le> j \<and> j < length ns \<longrightarrow> ns ! i \<notin> set (inputs (heap s0 ! (ns ! j)))"
  proof (intro allI impI)
    fix i j assume "i \<le> j \<and> j < length ns"
    with Cons.prems(3) [rule_format, of "Suc i" "Suc j"]
    show "ns ! i \<notin> set (inputs (heap s0 ! (ns ! j)))" by simp
  qed
  from Cons.prems(3) [rule_format, of 0 0] have nn: "n \<notin> set (inputs (heap s0 ! n))" by simp
  have nrest: "\<forall>m \<in> set ns. n \<notin> set (inputs (heap s0 ! m))"
  proof
    fix m assume "m \<in> set ns"
    then obtain j where j: "j < length ns" "ns ! j = m" by (auto simp: in_set_conv_nth)
    with Cons.prems(3) [rule_format, of 0 "Suc j"]
    show "n \<notin> set (inputs (heap s0 ! m))" by simp
  qed
  have wu: "walk_uses (heap s0) (n # ns) x = node_uses (heap s0) x n @ walk_uses (heap s0) ns x"
    by (simp add: walk_uses_def)
  show ?case
  proof (cases "op (heap s0 ! n)")
    case None
    with same [OF Cons.prems(1) n0] Cons.prems(4) have w: "walk ns G s = (Inr G', s')" by simp
    from None have "node_uses (heap s0) x n = []" by (simp add: node_uses_def)
    with Cons.IH [OF Cons.prems(1) ns0 ord w] wu show ?thesis by simp
  next
    case (Some f)
    with same [OF Cons.prems(1) n0] have f: "op (heap s ! n) = Some f" by simp
    from Cons.prems(4) f obtain g where g: "G n = Some g"
      by (cases "G n") simp_all
    obtain rb s1 where b: "backward f g n s = (rb, s1)" by force
    with Cons.prems(4) f g obtain in_grads where rb: "rb = Inr in_grads"
      by (cases rb) simp_all
    note b = b [unfolded rb]
    have e1: "extends s s1" using b by (rule backward_extends)
    obtain g1 s2
      where a: "accumulate (zip (inputs (heap s1 ! n)) in_grads) G s1 = (g1, s2)" by force
    have e2: "extends s1 s2" using a by (rule accumulate_extends)
    from Cons.prems(4) f g b a have w: "walk ns g1 s2 = (Inr G', s')" by simp
    have e3: "extends s2 s'" using w by (rule walk_extends)
    have e01: "extends s0 s1" using Cons.prems(1) e1 by (rule extends_trans)
    have e02: "extends s0 s2" using e01 e2 by (rule extends_trans)
    have e1': "extends s1 s'" using e2 e3 by (rule extends_trans)
    have ins: "inputs (heap s1 ! n) = inputs (heap s0 ! n)" using same [OF e01 n0] by simp
    let ?ins = "inputs (heap s0 ! n)"
    have l2: "length in_grads = 2" using b by (rule backward_length)
    from Cons.IH [OF e02 ns0 ord w] obtain ks
      where ks: "adds (heap s') (g1 x) ks (G' x)"
        "list_all2 (\<lambda>k e. \<exists>g. G' (fst e) = Some g \<and> contribution s0 s' (fst e) g (snd e) k)
                ks (walk_uses (heap s0) ns x)"
      by blast
    let ?hd = "map snd (filter (\<lambda>q. fst q = x) (zip ?ins in_grads))"
    from accumulate_adds [OF a, of x] ins have "adds (heap s2) (G x) ?hd (g1 x)" by simp
    moreover from e3 have "prefix (heap s2) (heap s')" by (simp add: extends_def)
    ultimately have "adds (heap s') (G x) ?hd (g1 x)" by (rule adds_prefix [rotated])
    from adds_append [OF this ks(1)] have 1: "adds (heap s') (G x) (?hd @ ks) (G' x)" .
    have "n \<notin> fst ` set (zip (inputs (heap s1 ! n)) in_grads)"
      using nn ins by (auto dest: set_zip_leftD)
    with accumulate_other [OF a] g have g1n: "g1 n = Some g" by simp
    have "\<forall>m \<in> set ns. m < length (heap s2) \<and> n \<notin> set (inputs (heap s2 ! m))"
    proof
      fix m assume m: "m \<in> set ns"
      with ns0 have m0: "m < length (heap s0)" by simp
      with same [OF e02 m0] nrest m extends_length [OF e02]
      show "m < length (heap s2) \<and> n \<notin> set (inputs (heap s2 ! m))" by simp
    qed
    from walk_other [OF this w] g1n have G'n: "G' n = Some g" by simp
    have c: "contribution s0 s' n g p (in_grads ! p)" if "p < 2" for p
    proof -
      from that l2 have "p < length in_grads" by simp
      with Some Cons.prems(1) b e1' show ?thesis unfolding contribution_def by blast
    qed
    have hd: "?hd = map ((!) in_grads) (filter (\<lambda>p. ?ins ! p = x) [0..<min (length ?ins) 2])"
      by (simp add: zip_uses l2)
    have nu: "node_uses (heap s0) x n
              = map (Pair n) (filter (\<lambda>p. ?ins ! p = x) [0..<min (length ?ins) 2])"
      using Some by (simp add: node_uses_def)
    have 2: "list_all2 (\<lambda>k e. \<exists>g. G' (fst e) = Some g \<and> contribution s0 s' (fst e) g (snd e) k)
                ?hd (node_uses (heap s0) x n)"
      unfolding hd nu using G'n c
      by (simp add: list_all2_map1 list_all2_map2 list_all2_same)
    from 2 ks(2) have "list_all2 (\<lambda>k e. \<exists>g. G' (fst e) = Some g \<and> contribution s0 s' (fst e) g (snd e) k)
                (?hd @ ks) (walk_uses (heap s0) (n # ns) x)"
      unfolding wu by (rule list_all2_appendI)
    with 1 show ?thesis by blast
  qed
qed

lemma rev_topo_order:
  assumes d: "distinct topo" and t: "topo_sorted h topo" and ij: "i \<le> j" "j < length topo"
  shows "rev topo ! i \<notin> set (inputs (h ! (rev topo ! j)))"
proof
  let ?L = "length topo"
  let ?a = "?L - Suc i" and ?b = "?L - Suc j"
  assume m: "rev topo ! i \<in> set (inputs (h ! (rev topo ! j)))"
  from ij have ri: "rev topo ! i = topo ! ?a" and rj: "rev topo ! j = topo ! ?b"
    by (simp_all add: rev_nth)
  from ij have ab: "?b \<le> ?a" "?a < ?L" "?b < ?L" by arith+
  from t ab(3) have "set (inputs (h ! (topo ! ?b))) \<subseteq> set (take ?b topo)"
    by (simp add: topo_sorted_def)
  with m ri rj have "topo ! ?a \<in> set (take ?b topo)" by auto
  then obtain a' where a': "a' < ?b" "topo ! a' = topo ! ?a"
    using ab(3) by (auto simp: in_set_conv_nth)
  with d ab have "a' = ?a" by (simp add: nth_eq_iff_index_eq)
  with a'(1) ab(1) show False by simp
qed

lemma set_walk_uses:
  "set (walk_uses h ns x)
     = {(c, p). c \<in> set ns \<and> op (h ! c) \<noteq> None \<and> p < length (inputs (h ! c)) \<and> p < 2 \<and>
                inputs (h ! c) ! p = x}"
  by (auto simp: walk_uses_def node_uses_def split: if_splits)

lemma distinct_walk_uses: "distinct ns \<Longrightarrow> distinct (walk_uses h ns x)"
proof (induction ns)
  case Nil
  show ?case by (simp add: walk_uses_def)
next
  case (Cons n ns)
  have wu: "walk_uses h (n # ns) x = node_uses h x n @ walk_uses h ns x"
    by (simp add: walk_uses_def)
  have 1: "distinct (node_uses h x n)"
    by (simp add: node_uses_def distinct_map inj_on_def)
  have 2: "set (node_uses h x n) \<inter> set (walk_uses h ns x) = {}"
    using Cons.prems by (auto simp: set_walk_uses node_uses_def split: if_splits)
  from Cons 1 2 show ?case unfolding wu by simp
qed

lemma two_element_list:
  assumes "distinct xs" and "set xs = {a, b}" and "a \<noteq> b"
  shows "xs = [a, b] \<or> xs = [b, a]"
proof -
  from assms have "length xs = 2" using distinct_card [of xs] by simp
  then obtain u v where "xs = [u, v]"
    by (cases xs rule: list.exhaust) (auto simp: length_Suc_conv numeral_2_eq_2)
  with assms(2,3) show ?thesis by (auto simp: doubleton_eq_iff)
qed

lemma build_topo_inputs_mono_step:
  assumes step: "\<And>n st r. build_topo k h n st = Some r \<Longrightarrow> build_topo (Suc k) h n st = Some r"
    and "build_topo_inputs k h ins st = Some r"
  shows "build_topo_inputs (Suc k) h ins st = Some r"
  using assms(2)
proof (induction ins arbitrary: st)
  case Nil
  then show ?case by simp
next
  case (Cons i ins)
  from Cons.prems obtain st1 where 1: "build_topo k h i st = Some st1"
    and 2: "build_topo_inputs k h ins st1 = Some r"
    by (auto split: option.splits)
  from step [OF 1] Cons.IH [OF 2] show ?case by (simp del: build_topo.simps)
qed

lemma build_topo_Suc:
  "build_topo k h n st = Some r \<Longrightarrow> build_topo (Suc k) h n st = Some r"
proof (induction k arbitrary: n st r)
  case 0
  then show ?case by (cases st) simp
next
  case (Suc k)
  obtain vis topo where st: "st = (vis, topo)" by force
  show ?case
  proof (cases "n \<in> vis")
    case True
    with Suc.prems st have "r = (vis, topo)" by simp
    with True st show ?thesis by simp
  next
    case False
    with Suc.prems st obtain vis1 topo1
      where 1: "build_topo_inputs k h (inputs (h ! n)) (insert n vis, topo) = Some (vis1, topo1)"
        and 2: "r = (vis1, topo1 @ [n])"
      by (auto split: option.splits)
    have 3: "build_topo_inputs (Suc k) h (inputs (h ! n)) (insert n vis, topo) = Some (vis1, topo1)"
      using Suc.IH 1 by (rule build_topo_inputs_mono_step)
    have "build_topo (Suc (Suc k)) h n (vis, topo)
            = (case build_topo_inputs (Suc k) h (inputs (h ! n)) (insert n vis, topo) of
                 None \<Rightarrow> None
               | Some (visited1, topo_order1) \<Rightarrow> Some (visited1, topo_order1 @ [n]))"
      using False by (simp only: build_topo.simps not_False_eq_True if_True)
    with 3 2 st show ?thesis by (simp del: build_topo.simps)
  qed
qed

lemma build_topo_mono:
  "build_topo k h n st = Some r \<Longrightarrow> build_topo (k + j) h n st = Some r"
  by (induction j) (simp_all add: build_topo_Suc del: build_topo.simps)

lemma build_topo_result:
  assumes "closed h" and "acyclic (edges h)" and "n < length h"
    and "build_topo fuel h n ({}, []) = Some (vis, topo)"
  shows "distinct topo \<and> set topo = reach h n \<and> topo_sorted h topo"
proof -
  from build_topo_correct [OF assms(1-3)] obtain k where k: "\<forall>fuel \<ge> k. \<exists>topo.
           build_topo fuel h n ({}, []) = Some (set topo, topo) \<and>
           distinct topo \<and> set topo = reach h n \<and> topo_sorted h topo" by blast
  from build_topo_mono [OF assms(4), of k]
  have "build_topo (fuel + k) h n ({}, []) = Some (vis, topo)" .
  moreover from k obtain topo' where "build_topo (fuel + k) h n ({}, []) = Some (set topo', topo')"
    "distinct topo'" "set topo' = reach h n" "topo_sorted h topo'"
    by (meson le_add2)
  ultimately show ?thesis by simp
qed


lemma contribution_extends:
  "contribution s sa c g p k \<Longrightarrow> extends sa sb \<Longrightarrow> contribution s sb c g p k"
  unfolding contribution_def by (blast intro: extends_trans)

lemma collect_three:
  assumes "collect [x, y, z] G s = (rs, s')"
    and "G x = Some gx" and "G y = Some gy" and "G z = Some gz"
  shows "rs = [gx, gy, gz]"
  using assms by (auto simp: alloc_defs split: prod.splits)

lemma gradients_shared:
  assumes c: "closed (heap s)" and a: "acyclic (edges (heap s))" and out: "out < length (heap s)"
    and u: "uses (heap s) out x = {(c1, p1), (c2, p2)}" and ne: "(c1, p1) \<noteq> (c2, p2)"
    and g: "gradients fuel s out [x, c1, c2] = (Inr rs, s')"
  shows "\<exists>gx g1 g2 k1 k2 ka kb. rs = [gx, g1, g2]
           \<and> contribution s s' c1 g1 p1 k1 \<and> contribution s s' c2 g2 p2 k2
           \<and> ((ka, kb) = (k1, k2) \<or> (ka, kb) = (k2, k1))
           \<and> gx < length (heap s')
           \<and> heap s' ! gx = \<lparr>inputs = [ka, kb], op = Some AddOp, val = None\<rparr>"
proof -
  let ?seed = "\<lparr>inputs = [], op = None, val = Some (1::real)\<rparr>"
  let ?h1 = "heap s @ [?seed]"
  let ?s1 = "s\<lparr>heap := ?h1\<rparr>"
  let ?G = "Map.empty(out \<mapsto> length (heap s))"
  have i: "Node_init [] None (Some 1) s = (length (heap s), ?s1)" by (simp add: Node_init_def)
  have c1: "closed ?h1" using c by (rule closed_leaf)
  have a1: "acyclic (edges ?h1)" using a by (simp add: edges_leaf)
  have o1: "out < length ?h1" using out by simp
  from g i obtain vis topo G' s2
    where t: "build_topo fuel ?h1 out ({}, []) = Some (vis, topo)"
      and w: "walk (rev topo) ?G ?s1 = (Inr G', s2)"
      and col: "collect [x, c1, c2] G' s2 = (rs, s')"
    by (auto simp: gradients_def split: option.splits sum.splits prod.splits)
  from build_topo_result [OF c1 a1 o1 t] have d: "distinct topo"
    and r: "set topo = reach (heap s) out" and ts1: "topo_sorted ?h1 topo"
    by (simp_all add: reach_leaf)
  have bound: "\<forall>n \<in> set topo. n < length (heap s)"
    using r reach_bound [OF c out] by blast
  with ts1 have ts: "topo_sorted (heap s) topo" by (simp add: topo_sorted_leaf)
  have e1: "extends s ?s1" by (simp add: extends_def)
  have b': "\<forall>n \<in> set (rev topo). n < length (heap s)" using bound by simp
  have ord: "\<forall>i j. i \<le> j \<and> j < length (rev topo) \<longrightarrow>
               rev topo ! i \<notin> set (inputs (heap s ! (rev topo ! j)))"
    using rev_topo_order [OF d ts] by simp
  from walk_contributions [OF e1 b' ord w, of x] obtain ks
    where ks: "adds (heap s2) (?G x) ks (G' x)"
      "list_all2 (\<lambda>k e. \<exists>g. G' (fst e) = Some g \<and> contribution s s2 (fst e) g (snd e) k)
          ks (walk_uses (heap s) (rev topo) x)"
    by blast
  have su: "set (walk_uses (heap s) (rev topo) x) = {(c1, p1), (c2, p2)}"
    unfolding set_walk_uses using r u by (simp add: uses_def)
  have du: "distinct (walk_uses (heap s) (rev topo) x)"
    using d by (simp add: distinct_walk_uses)
  from u have "(c1, p1) \<in> uses (heap s) out x" by simp
  then have m: "c1 \<in> reach (heap s) out" "x \<in> set (inputs (heap s ! c1))"
    by (auto simp: uses_def)
  from reach_bound [OF c out m(1)] have "c1 < length (heap s)" .
  from acyclic_not_reach [OF a this m(2)] m(1) have xo: "x \<noteq> out" by blast
  then have G0: "?G x = None" by simp
  have e2: "extends s2 s'" using col by (rule collect_extends)
  from two_element_list [OF du su ne]
  have "\<exists>ea eb. walk_uses (heap s) (rev topo) x = [ea, eb] \<and>
          ((ea, eb) = ((c1, p1), (c2, p2)) \<or> (eb, ea) = ((c1, p1), (c2, p2)))" by auto
  then obtain ea eb where wu: "walk_uses (heap s) (rev topo) x = [ea, eb]"
    and eab: "(ea, eb) = ((c1, p1), (c2, p2)) \<or> (eb, ea) = ((c1, p1), (c2, p2))" by blast
  from ks(2) wu obtain ka kb where kab: "ks = [ka, kb]"
    and Pa: "\<exists>g. G' (fst ea) = Some g \<and> contribution s s2 (fst ea) g (snd ea) ka"
    and Pb: "\<exists>g. G' (fst eb) = Some g \<and> contribution s s2 (fst eb) g (snd eb) kb"
    by (auto simp: list_all2_Cons2)
  from Pa obtain ga where ga: "G' (fst ea) = Some ga" "contribution s s2 (fst ea) ga (snd ea) ka"
    by blast
  from Pb obtain gb where gb: "G' (fst eb) = Some gb" "contribution s s2 (fst eb) gb (snd eb) kb"
    by blast
  from ks(1) G0 kab obtain gx
    where gx: "node_at (heap s2) gx \<lparr>inputs = [ka, kb], op = Some AddOp, val = None\<rparr>"
      "G' x = Some gx" by auto
  from e2 have "prefix (heap s2) (heap s')" by (simp add: extends_def)
  from node_at_prefix [OF this gx(1)]
  have nd: "gx < length (heap s')"
    "heap s' ! gx = \<lparr>inputs = [ka, kb], op = Some AddOp, val = None\<rparr>"
    by (simp_all add: node_at_def)
  note ca = contribution_extends [OF ga(2) e2] and cb = contribution_extends [OF gb(2) e2]
  from eab show ?thesis
  proof
    assume "(ea, eb) = ((c1, p1), (c2, p2))"
    then have e: "ea = (c1, p1)" "eb = (c2, p2)" by simp_all
    from collect_three [OF col gx(2)] ga(1) gb(1) e have "rs = [gx, ga, gb]" by simp
    with ca cb e nd show ?thesis by auto
  next
    assume "(eb, ea) = ((c1, p1), (c2, p2))"
    then have e: "eb = (c1, p1)" "ea = (c2, p2)" by simp_all
    from collect_three [OF col gx(2)] ga(1) gb(1) e have "rs = [gx, gb, ga]" by simp
    with ca cb e nd show ?thesis by auto
  qed
qed

lemma diamond_eq:
  "diamond 2 3 empty_state = (0, 1, 4,
     \<lparr>heap = [\<lparr>inputs = [], op = None, val = Some 2\<rparr>,
              \<lparr>inputs = [], op = None, val = Some 3\<rparr>,
              \<lparr>inputs = [0, 1], op = Some AddOp, val = None\<rparr>,
              \<lparr>inputs = [0, 1], op = Some AddOp, val = None\<rparr>,
              \<lparr>inputs = [2, 3], op = Some MulOp, val = None\<rparr>],
      forward_calls = 0\<rparr>)"
  by (simp add: diamond_def empty_state_def alloc_defs)

lemma diamond_reach: "reach (heap (snd (snd (snd (diamond 2 3 empty_state))))) 4 = {0, 1, 2, 3, 4}"
proof -
  let ?h = "[\<lparr>inputs = [], op = None, val = Some (2::real)\<rparr>,
             \<lparr>inputs = [], op = None, val = Some 3\<rparr>,
             \<lparr>inputs = [0, Suc 0], op = Some AddOp, val = None\<rparr>,
             \<lparr>inputs = [0, Suc 0], op = Some AddOp, val = None\<rparr>,
             \<lparr>inputs = [2, 3], op = Some MulOp, val = None\<rparr>]"
  have h: "heap (snd (snd (snd (diamond 2 3 empty_state)))) = ?h" by (simp add: diamond_eq)
  have 0: "reach ?h 0 = {0}" by (subst reach_unfold) simp_all
  have 1: "reach ?h (Suc 0) = {Suc 0}" by (subst reach_unfold) simp_all
  have 2: "reach ?h 2 = {0, Suc 0, 2}" by (subst reach_unfold) (auto simp: 0 1)
  have 3: "reach ?h 3 = {0, Suc 0, 3}" by (subst reach_unfold) (auto simp: 0 1)
  have "reach ?h 4 = {0, Suc 0, 2, 3, 4}" by (subst reach_unfold) (auto simp: 2 3)
  then show ?thesis unfolding h by simp
qed

lemma diamond_uses:
  "uses (heap (snd (snd (snd (diamond 2 3 empty_state))))) 4 0 = {(2, 0), (3, 0)}"
  unfolding uses_def diamond_reach
  by (auto simp: diamond_eq less_Suc_eq numeral_2_eq_2)

lemma diamond_gradients:
  "gradients 3 (snd (snd (snd (diamond 2 3 empty_state)))) 4 [0, 2, 3] =
   (Inr [8, 6, 7],
  \<lparr>heap =
     [\<lparr>inputs = [], op = None, val = Some 2\<rparr>,
      \<lparr>inputs = [], op = None, val = Some 3\<rparr>,
      \<lparr>inputs = [0, 1], op = Some AddOp, val = None\<rparr>,
      \<lparr>inputs = [0, 1], op = Some AddOp, val = None\<rparr>,
      \<lparr>inputs = [2, 3], op = Some MulOp, val = None\<rparr>,
      \<lparr>inputs = [], op = None, val = Some 1\<rparr>,
      \<lparr>inputs = [3, 5], op = Some MulOp, val = None\<rparr>,
      \<lparr>inputs = [2, 5], op = Some MulOp, val = None\<rparr>,
      \<lparr>inputs = [7, 6], op = Some AddOp, val = None\<rparr>,
      \<lparr>inputs = [7, 6], op = Some AddOp, val = None\<rparr>,
      \<lparr>inputs = [], op = None, val = Some 0\<rparr>,
      \<lparr>inputs = [], op = None, val = Some 0\<rparr>,
      \<lparr>inputs = [], op = None, val = Some 0\<rparr>],
     forward_calls = 0\<rparr>)"
  by (simp add: diamond_eq gradients_def alloc_defs eval_nat_numeral getitem_def)

text \<open>
  Claim C4.  In a store without dangling references, for an acyclic graph and an
  allocated output node, let the node \<open>inp\<close> have exactly two uses in the graph of
  the output: as the input at position \<open>p1\<close> of the consumer \<open>c1\<close> and at position
  \<open>p2\<close> of the consumer \<open>c2\<close> (two consumers, or one consumer with \<open>inp\<close> as both
  inputs).  Whenever \<open>gradients(output_node, [inp, c1, c2])\<close> returns, it returns
  three nodes \<open>gx\<close>, \<open>g1\<close>, \<open>g2\<close>; the gradient \<open>gx\<close> of \<open>inp\<close> is an Add node
  allocated by the call whose two inputs are the two contributions, in the order
  in which the walk has come to them: the contribution \<open>k1\<close> that the backward rule
  of the operator of \<open>c1\<close> returns at position \<open>p1\<close> for the gradient \<open>g1\<close> of
  \<open>c1\<close>, and the contribution \<open>k2\<close> of \<open>c2\<close> likewise, whatever the operators of
  \<open>c1\<close> and \<open>c2\<close>.  When the two contributions evaluate, to \<open>v1\<close> and \<open>v2\<close>,
  \<open>gx.eval()\<close> returns \<open>v1 + v2\<close>.  Under the arity invariant the call does return,
  for every large enough recursion limit.  In particular, for leaves \<open>a = x\<close> and
  \<open>b = y\<close> allocated in any store and the diamond \<open>d = (a + b) * (a + b)\<close>, with one
  node \<open>a + b\<close> or with two, \<open>gradients(d, [a])[0].eval()\<close> is \<open>2 * (x + y)\<close>, for
  any recursion limits of at least three for \<open>gradients\<close> and four for \<open>eval\<close>.
\<close>

theorem shared_gradient:
  assumes "closed (heap s)" and "acyclic (edges (heap s))" and "output_node < length (heap s)"
    and "uses (heap s) output_node inp = {(c1, p1), (c2, p2)}" and "(c1, p1) \<noteq> (c2, p2)"
  shows "(\<forall>fuel rs s'. gradients fuel s output_node [inp, c1, c2] = (Inr rs, s') \<longrightarrow>
           (\<exists>gx g1 g2 k1 k2 ka kb. rs = [gx, g1, g2]
              \<and> contribution s s' c1 g1 p1 k1 \<and> contribution s s' c2 g2 p2 k2
              \<and> ((ka, kb) = (k1, k2) \<or> (ka, kb) = (k2, k1))
              \<and> gx < length (heap s')
              \<and> heap s' ! gx = \<lparr>inputs = [ka, kb], op = Some AddOp, val = None\<rparr>
              \<and> (\<forall>k v1 v2 sa sb.
                    eval (Suc k) s' ka = (Inr v1, sa) \<longrightarrow> eval (Suc k) sa kb = (Inr v2, sb) \<longrightarrow>
                    fst (eval (Suc (Suc k)) s' gx) = Inr (v1 + v2))))
       \<and> (binary (heap s) \<longrightarrow>
            (\<exists>K. \<forall>fuel \<ge> K. \<exists>rs s'. gradients fuel s output_node [inp, c1, c2] = (Inr rs, s')))
       \<and> (case diamond x y s0 of (a, b, d, s3) \<Rightarrow>
            (case gradients (3 + i) s3 d [a] of
               (Inr [ga], s4) \<Rightarrow> fst (eval (4 + j) s4 ga) = Inr (2 * (x + y))
             | _ \<Rightarrow> False))
       \<and> (case diamond_shared x y s0 of (a, b, d, s3) \<Rightarrow>
            (case gradients (3 + i) s3 d [a] of
               (Inr [ga], s4) \<Rightarrow> fst (eval (4 + j) s4 ga) = Inr (2 * (x + y))
             | _ \<Rightarrow> False))"
proof (intro conjI allI impI)
  fix fuel rs s'
  assume g: "gradients fuel s output_node [inp, c1, c2] = (Inr rs, s')"
  from gradients_shared [OF assms g] obtain gx g1 g2 k1 k2 ka kb
    where 1: "rs = [gx, g1, g2]" "contribution s s' c1 g1 p1 k1" "contribution s s' c2 g2 p2 k2"
      "(ka, kb) = (k1, k2) \<or> (ka, kb) = (k2, k1)" "gx < length (heap s')"
      "heap s' ! gx = \<lparr>inputs = [ka, kb], op = Some AddOp, val = None\<rparr>"
    by blast
  have "\<forall>k v1 v2 sa sb.
          eval (Suc k) s' ka = (Inr v1, sa) \<longrightarrow> eval (Suc k) sa kb = (Inr v2, sb) \<longrightarrow>
          fst (eval (Suc (Suc k)) s' gx) = Inr (v1 + v2)"
    using eval_Add_node [OF 1(5,6)] by blast
  with 1 show "\<exists>gx g1 g2 k1 k2 ka kb. rs = [gx, g1, g2]
              \<and> contribution s s' c1 g1 p1 k1 \<and> contribution s s' c2 g2 p2 k2
              \<and> ((ka, kb) = (k1, k2) \<or> (ka, kb) = (k2, k1))
              \<and> gx < length (heap s')
              \<and> heap s' ! gx = \<lparr>inputs = [ka, kb], op = Some AddOp, val = None\<rparr>
              \<and> (\<forall>k v1 v2 sa sb.
                    eval (Suc k) s' ka = (Inr v1, sa) \<longrightarrow> eval (Suc k) sa kb = (Inr v2, sb) \<longrightarrow>
                    fst (eval (Suc (Suc k)) s' gx) = Inr (v1 + v2))"
    by blast
next
  assume "binary (heap s)"
  with assms(1-3)
  show "\<exists>K. \<forall>fuel \<ge> K. \<exists>rs s'. gradients fuel s output_node [inp, c1, c2] = (Inr rs, s')"
    by (blast intro: gradients_returns)
next
  show "case diamond x y s0 of (a, b, d, s3) \<Rightarrow>
            (case gradients (3 + i) s3 d [a] of
               (Inr [ga], s4) \<Rightarrow> fst (eval (4 + j) s4 ga) = Inr (2 * (x + y))
             | _ \<Rightarrow> False)"
    by (simp add: diamond_def gradients_def alloc_defs eval_nat_numeral getitem_def nth_append)
next
  show "case diamond_shared x y s0 of (a, b, d, s3) \<Rightarrow>
            (case gradients (3 + i) s3 d [a] of
               (Inr [ga], s4) \<Rightarrow> fst (eval (4 + j) s4 ga) = Inr (2 * (x + y))
             | _ \<Rightarrow> False)"
    by (simp add: diamond_shared_def gradients_def alloc_defs eval_nat_numeral getitem_def
        nth_append)
qed

text \<open>
  The diamond over the leaves \<open>2\<close> and \<open>3\<close>: the leaf \<open>a\<close> (address 0) is the first
  input of the two Add nodes (addresses 2 and 3) and has no other use below the
  output \<open>d\<close> (address 4).  \<open>gradients(d, [a, l, r])\<close> returns the nodes 8, 6, 7;
  node 8 is the Add node of the contributions 7 and 6, both of value \<open>5\<close>, and
  evaluates to \<open>5 + 5\<close>.
\<close>

theorem shared_gradient_witness:
  "closed (heap (snd (snd (snd (diamond 2 3 empty_state)))))
   \<and> acyclic (edges (heap (snd (snd (snd (diamond 2 3 empty_state))))))
   \<and> (4::nat) < length (heap (snd (snd (snd (diamond 2 3 empty_state)))))
   \<and> uses (heap (snd (snd (snd (diamond 2 3 empty_state))))) 4 0 = {(2, 0), (3, 0)}
   \<and> (2::nat, 0::nat) \<noteq> (3, 0)
   \<and> binary (heap (snd (snd (snd (diamond 2 3 empty_state)))))
   \<and> (\<exists>s'. gradients 3 (snd (snd (snd (diamond 2 3 empty_state)))) 4 [0, 2, 3]
              = (Inr [8, 6, 7], s')
          \<and> heap s' ! 8 = \<lparr>inputs = [7, 6], op = Some AddOp, val = None\<rparr>
          \<and> (\<exists>k1 k2. contribution (snd (snd (snd (diamond 2 3 empty_state)))) s' 2 6 0 k1
                  \<and> contribution (snd (snd (snd (diamond 2 3 empty_state)))) s' 3 7 0 k2
                  \<and> ((7, 6) = (k1, k2) \<or> (7, 6) = (k2, k1)))
          \<and> (\<exists>sa sb. eval 3 s' 7 = (Inr 5, sa) \<and> eval 3 sa 6 = (Inr 5, sb))
          \<and> fst (eval 4 s' 8) = Inr (5 + 5))
   \<and> (\<exists>K. \<forall>fuel \<ge> K. \<exists>rs s'.
          gradients fuel (snd (snd (snd (diamond 2 3 empty_state)))) 4 [0, 2, 3] = (Inr rs, s'))
   \<and> (case diamond 2 3 empty_state of (a, b, d, s3) \<Rightarrow>
        (case gradients 3 s3 d [a] of
           (Inr [ga], s4) \<Rightarrow> fst (eval 4 s4 ga) = Inr 10
         | _ \<Rightarrow> False))"
proof -
  let ?s = "snd (snd (snd (diamond 2 3 empty_state)))"
  have o: "created_in_order (heap ?s)"
    by (simp add: diamond_eq created_in_order_def less_Suc_eq eval_nat_numeral)
  have c: "closed (heap ?s)" using o by (rule created_in_order_closed)
  have a: "acyclic (edges (heap ?s))" using o by (rule created_in_order_acyclic)
  have l: "(4::nat) < length (heap ?s)" by (simp add: diamond_eq)
  have b: "binary (heap ?s)" by (simp add: diamond_eq binary_def)
  have u: "uses (heap ?s) 4 0 = {(2, 0), (3, 0)}" by (rule diamond_uses)
  have ne: "(2::nat, 0::nat) \<noteq> (3, 0)" by simp
  note sg = shared_gradient [OF c a l u ne, where x = 2 and y = 3 and ?s0.0 = empty_state
      and i = 0 and j = 0]
  obtain s' where g: "gradients 3 ?s 4 [0, 2, 3] = (Inr [8, 6, 7], s')"
    and s': "s' = snd (gradients 3 ?s 4 [0, 2, 3])"
    by (simp add: diamond_gradients)
  have h8: "heap s' ! 8 = \<lparr>inputs = [7, 6], op = Some AddOp, val = None\<rparr>"
    unfolding s' diamond_gradients by simp
  obtain sa where e1: "eval 3 s' 7 = (Inr 5, sa)" and sa: "sa = snd (eval 3 s' 7)"
    unfolding s' diamond_gradients by (simp add: eval_nat_numeral getitem_def)
  obtain sb where e2: "eval 3 sa 6 = (Inr 5, sb)"
    unfolding sa s' diamond_gradients by (simp add: eval_nat_numeral getitem_def)
  from sg [THEN conjunct1, rule_format, OF g] obtain gx g1 g2 k1 k2 ka kb
    where 1: "[8, 6, 7] = [gx, g1, g2]" "contribution ?s s' 2 g1 0 k1" "contribution ?s s' 3 g2 0 k2"
      "(ka, kb) = (k1, k2) \<or> (ka, kb) = (k2, k1)"
      "heap s' ! gx = \<lparr>inputs = [ka, kb], op = Some AddOp, val = None\<rparr>"
      "\<forall>k v1 v2 sa sb.
          eval (Suc k) s' ka = (Inr v1, sa) \<longrightarrow> eval (Suc k) sa kb = (Inr v2, sb) \<longrightarrow>
          fst (eval (Suc (Suc k)) s' gx) = Inr (v1 + v2)"
    by blast
  from 1(1) have gx: "gx = 8" "g1 = 6" "g2 = 7" by simp_all
  from 1(5) h8 gx have k: "ka = 7" "kb = 6" by simp_all
  have n: "(3::nat) = Suc 2" "(4::nat) = Suc (Suc 2)" by simp_all
  from 1(6) [rule_format, of 2 5 sa 5 sb] e1 e2 gx k
  have e8: "fst (eval 4 s' 8) = Inr (5 + 5)" unfolding n by blast
  from 1(2,3,4) gx k
  have ks: "\<exists>k1 k2. contribution ?s s' 2 6 0 k1 \<and> contribution ?s s' 3 7 0 k2
                  \<and> ((7, 6) = (k1, k2) \<or> (7, 6) = (k2, k1))" by blast
  from e1 e2 have ev: "\<exists>sa sb. eval 3 s' 7 = (Inr 5, sa) \<and> eval 3 sa 6 = (Inr 5, sb)" by blast
  from g h8 ks ev e8
  have A: "\<exists>s'. gradients 3 ?s 4 [0, 2, 3] = (Inr [8, 6, 7], s')
          \<and> heap s' ! 8 = \<lparr>inputs = [7, 6], op = Some AddOp, val = None\<rparr>
          \<and> (\<exists>k1 k2. contribution ?s s' 2 6 0 k1 \<and> contribution ?s s' 3 7 0 k2
                  \<and> ((7, 6) = (k1, k2) \<or> (7, 6) = (k2, k1)))
          \<and> (\<exists>sa sb. eval 3 s' 7 = (Inr 5, sa) \<and> eval 3 sa 6 = (Inr 5, sb))
          \<and> fst (eval 4 s' 8) = Inr (5 + 5)" by blast
  from sg [THEN conjunct2, THEN conjunct1] b
  have B: "\<exists>K. \<forall>fuel \<ge> K. \<exists>rs s'. gradients fuel ?s 4 [0, 2, 3] = (Inr rs, s')" by blast
  have m: "(3::nat) + 0 = 3" "(4::nat) + 0 = 4" "(2::real) * (2 + 3) = 10" by simp_all
  from sg [THEN conjunct2, THEN conjunct2, THEN conjunct1]
  have C: "case diamond 2 3 empty_state of (a, b, d, s3) \<Rightarrow>
        (case gradients 3 s3 d [a] of
           (Inr [ga], s4) \<Rightarrow> fst (eval 4 s4 ga) = Inr 10
         | _ \<Rightarrow> False)"
    unfolding m .
  show ?thesis by (intro conjI) (fact c a l u ne b A B C)+
qed

end
